theory Spec2Isabelle
  imports Complex_Main "HOL-Library.Word" "HOL-Library.Product_Lexorder" "HOL-Library.Multiset"
begin

section \<open>Data model of bwamem.c\<close>

text \<open>
  The C types \<open>int\<close> and \<open>int64_t\<close> are modelled as \<open>int\<close>: the claims verified below
  do not depend on wrap-around, and every concrete input used stays far inside the 32-bit
  range. Bytes (\<open>uint8_t\<close>) are \<open>8 word\<close>, CIGAR operations (\<open>uint32_t\<close>) are \<open>32 word\<close>,
  the packed \<open>info\<close> field and the suffix-array interval of an SMEM (\<open>uint64_t\<close>) are
  \<open>64 word\<close>. Floating-point expressions are modelled over \<open>real\<close>, the conversion
  \<open>(int)x\<close> of a \<open>double\<close> as truncation towards zero.
\<close>

type_synonym u8 = "8 word"
type_synonym u32 = "32 word"
type_synonym u64 = "64 word"

text \<open>\<open>(int)x\<close> for a double \<open>x\<close>: the fractional part is discarded.\<close>

definition c_int_of_double :: "real \<Rightarrow> int" where
  "c_int_of_double x = (if x < 0 then \<lceil>x\<rceil> else \<lfloor>x\<rfloor>)"

section \<open>CIGAR generation: \<open>bwa_gen_cigar\<close>\<close>

text \<open>
  What \<open>bwa_gen_cigar\<close> hands back: the returned pointer (\<open>None\<close> is the null pointer),
  the value left in \<open>*n_cigar\<close>, and the value written to \<open>*score\<close> (\<open>None\<close> when the
  function never writes it).
\<close>

record gen_cigar_result =
  gc_cigar :: "u32 list option"
  gc_n_cigar :: int
  gc_score :: "int option"

text \<open>
  The band width of lines 483--486:
  \<^verbatim>\<open>w = (int)((double)(l_query * mat[0] - q) / r + 1.);
  w = w < 1? w : 1;
  w = w < w_? w : w_;
  w += abs(rlen - l_query);\<close>
  (\<open>r\<close> is non-zero in every configuration; the division is the real one.)
\<close>

definition bwa_gen_cigar_w :: "int \<Rightarrow> int \<Rightarrow> int \<Rightarrow> int \<Rightarrow> int \<Rightarrow> int \<Rightarrow> int" where
  "bwa_gen_cigar_w mat0 q r w_opt l_query rlen =
     (let w = c_int_of_double (real_of_int (l_query * mat0 - q) / real_of_int r + 1);
          w = (if w < 1 then w else 1);
          w = (if w < w_opt then w else w_opt)
      in w + \<bar>rlen - l_query\<bar>)"

text \<open>
  The in-place reversal loop
  \<^verbatim>\<open>for (i = 0; i < l>>1; ++i) tmp = s[i], s[i] = s[l-1-i], s[l-1-i] = tmp;\<close>
  reverses the first \<open>l\<close> elements of the buffer.
\<close>

definition reverse_prefix :: "int \<Rightarrow> 'a list \<Rightarrow> 'a list" where
  "reverse_prefix l s = rev (take (nat l) s) @ drop (nat l) s"

text \<open>
  \<open>bns_get_seq\<close> and \<open>ksw_global\<close> are external collaborators; they are parameters of the
  model. \<open>get_seq l_pac rb re\<close> yields the fetched bytes and \<open>rlen\<close>;
  \<open>ksw_global qlen query tlen target m mat q r w\<close> yields the score, \<open>n_cigar\<close> and the
  CIGAR buffer. The result also carries the query buffer, which the function reverses
  and restores.
\<close>

definition bwa_gen_cigar ::
  "(int \<Rightarrow> int \<Rightarrow> int \<Rightarrow> u8 list \<times> int) \<Rightarrow>
   (int \<Rightarrow> u8 list \<Rightarrow> int \<Rightarrow> u8 list \<Rightarrow> int \<Rightarrow> int list \<Rightarrow> int \<Rightarrow> int \<Rightarrow> int \<Rightarrow> int \<times> int \<times> u32 list) \<Rightarrow>
   int list \<Rightarrow> int \<Rightarrow> int \<Rightarrow> int \<Rightarrow> int \<Rightarrow> int \<Rightarrow> u8 list \<Rightarrow> int \<Rightarrow> int \<Rightarrow>
   gen_cigar_result \<times> u8 list" where
  "bwa_gen_cigar get_seq ksw_global mat q r w_opt l_pac l_query query rb re =
     (if l_query \<le> 0 \<or> rb \<ge> re \<or> (rb < l_pac \<and> re > l_pac)
      then (\<lparr>gc_cigar = None, gc_n_cigar = 0, gc_score = None\<rparr>, query)
      else
        (case get_seq l_pac rb re of (rseq, rlen) \<Rightarrow>
          if re - rb \<noteq> rlen
          then (\<lparr>gc_cigar = None, gc_n_cigar = 0, gc_score = None\<rparr>, query)
          else
            (let query1 = (if rb \<ge> l_pac then reverse_prefix l_query query else query);
                 rseq1 = (if rb \<ge> l_pac then reverse_prefix rlen rseq else rseq);
                 w = bwa_gen_cigar_w (mat ! 0) q r w_opt l_query rlen
             in (case ksw_global l_query query1 rlen rseq1 5 mat q r w of
                   (score, n_cigar, cigar) \<Rightarrow>
                     (\<lparr>gc_cigar = Some cigar, gc_n_cigar = n_cigar, gc_score = Some score\<rparr>,
                      if rb \<ge> l_pac then reverse_prefix l_query query1 else query1)))))"

text \<open>
  The band width as section 4.6 of the specification writes it:
  \<open>min(w_opt, max(1, floor((l_query * match - q) / r) + 1)) + |rlen - l_query|\<close>.
\<close>

definition spec_band_width :: "int \<Rightarrow> int \<Rightarrow> int \<Rightarrow> int \<Rightarrow> int \<Rightarrow> int \<Rightarrow> int" where
  "spec_band_width mat0 q r w_opt l_query rlen =
     min w_opt (max 1 (\<lfloor>real_of_int (l_query * mat0 - q) / real_of_int r\<rfloor> + 1))
       + \<bar>rlen - l_query\<bar>"

text \<open>A kernel stand-in that reports the band width it was called with as its score.\<close>

definition ksw_probe ::
  "int \<Rightarrow> u8 list \<Rightarrow> int \<Rightarrow> u8 list \<Rightarrow> int \<Rightarrow> int list \<Rightarrow> int \<Rightarrow> int \<Rightarrow> int \<Rightarrow> int \<times> int \<times> u32 list" where
  "ksw_probe qlen query tlen target m mat q r w = (w, 1, [push_bit 4 (word_of_int qlen)])"

text \<open>A reference stand-in: every window of the packed reference is all \<open>A\<close>.\<close>

definition get_seq_zero :: "int \<Rightarrow> int \<Rightarrow> int \<Rightarrow> u8 list \<times> int" where
  "get_seq_zero l_pac rb re = (replicate (nat (re - rb)) 0, re - rb)"

text \<open>The scoring matrix of \<open>mem_fill_scmat\<close> for \<open>a = 1\<close>, \<open>b = 4\<close>.\<close>

definition scmat_1_4 :: "int list" where
  "scmat_1_4 = [1, -4, -4, -4, 0,  -4, 1, -4, -4, 0,  -4, -4, 1, -4, 0,  -4, -4, -4, 1, 0,
                0, 0, 0, 0, 0]"

section \<open>Configuration and alignment regions\<close>

text \<open>
  The fields of \<open>mem_opt_t\<close> that the modelled functions read, with the values
  \<open>mem_opt_init\<close> gives them. \<open>mask_level\<close> and \<open>chain_drop_ratio\<close> are floating-point
  fields.
\<close>

record mem_opt =
  opt_a :: int
  opt_b :: int
  opt_q :: int
  opt_r :: int
  opt_w :: int
  min_seed_len :: int
  max_seed_len :: int
  min_intv :: int
  max_occ :: int
  max_chain_gap :: int
  mask_level :: real
  chain_drop_ratio :: real
  n_threads :: int

definition mem_opt_init :: mem_opt where
  "mem_opt_init = \<lparr>opt_a = 1, opt_b = 4, opt_q = 6, opt_r = 1, opt_w = 100,
     min_seed_len = 19, max_seed_len = 32, min_intv = 10, max_occ = 10000,
     max_chain_gap = 10000, mask_level = 0.5, chain_drop_ratio = 0.5, n_threads = 1\<rparr>"

record mem_alnreg =
  ar_rb :: int
  ar_re :: int
  ar_qb :: int
  ar_qe :: int
  ar_score :: int
  ar_sub :: int
  ar_csub :: int
  ar_sub_n :: int
  ar_seedcov :: int
  ar_secondary :: int

section \<open>Approximate mapping quality: \<open>mem_approx_mapq_se\<close>\<close>

text \<open>
  \<open>MEM_MAPQ_COEF\<close> is a macro of the absent header; it is the parameter \<open>coef\<close>.
  \<open>log\<close> is the natural logarithm.
\<close>

definition mem_approx_mapq_se :: "real \<Rightarrow> mem_opt \<Rightarrow> mem_alnreg \<Rightarrow> int" where
  "mem_approx_mapq_se coef opt a =
     (let sub = (if ar_sub a \<noteq> 0 then ar_sub a else min_seed_len opt * opt_a opt);
          sub = (if ar_csub a > sub then ar_csub a else sub)
      in if sub \<ge> ar_score a then 0
         else
           (let l = (if ar_qe a - ar_qb a > ar_re a - ar_rb a
                     then ar_qe a - ar_qb a else ar_re a - ar_rb a);
                mapq = (if ar_score a \<noteq> 0
                        then c_int_of_double
                               (coef * (1 - real_of_int sub / real_of_int (ar_score a))
                                  * ln (real_of_int (ar_seedcov a)) + 0.499)
                        else 0);
                identity = 1 - real_of_int (l * opt_a opt - ar_score a)
                                 / real_of_int (opt_a opt + opt_b opt) / real_of_int l;
                mapq = (if identity < 0.95
                        then c_int_of_double (real_of_int mapq * identity * identity + 0.499)
                        else mapq);
                mapq = (if ar_sub_n a \<noteq> 0
                        then mapq - c_int_of_double (4.343 * ln (real_of_int (ar_sub_n a)) + 0.499)
                        else mapq);
                mapq = (if mapq > 60 then 60 else mapq);
                mapq = (if mapq < 0 then 0 else mapq)
            in mapq))"

text \<open>The effective suboptimal score of section 4.7 of the specification.\<close>

definition sub_eff :: "mem_opt \<Rightarrow> mem_alnreg \<Rightarrow> int" where
  "sub_eff opt a =
     max (if ar_sub a \<noteq> 0 then ar_sub a else min_seed_len opt * opt_a opt) (ar_csub a)"

text \<open>A region whose score (18) is below \<open>min_seed_len * a = 19\<close>.\<close>

definition region_low :: mem_alnreg where
  "region_low = \<lparr>ar_rb = 1000, ar_re = 1050, ar_qb = 0, ar_qe = 50, ar_score = 18,
      ar_sub = 0, ar_csub = 0, ar_sub_n = 0, ar_seedcov = 18, ar_secondary = -1\<rparr>"

section \<open>Batch driver: \<open>worker1\<close>, \<open>worker2\<close>, \<open>mem_process_seqs\<close>\<close>

text \<open>The fields of \<open>worker_t\<close> that decide which reads a worker visits.\<close>

record worker =
  wk_start :: int
  wk_step :: int
  wk_n :: int

text \<open>
  The loop \<^verbatim>\<open>for (i = i0; i < n; i += step) body(i);\<close> with the indices it hands to its
  body collected in order. With \<open>step \<le> 0\<close> the loop does not end, so the function is
  partial.
\<close>

partial_function (option) worker_loop :: "int \<Rightarrow> int \<Rightarrow> int \<Rightarrow> int list \<Rightarrow> int list option" where
  "worker_loop i step n visited =
     (if i < n then worker_loop (i + step) step n (visited @ [i]) else Some visited)"

text \<open>\<open>worker1\<close> starts at \<open>w->start\<close>: the reads for which \<open>find_alnreg\<close> is run.\<close>

definition worker1 :: "worker \<Rightarrow> int list option" where
  "worker1 w = worker_loop (wk_start w) (wk_step w) (wk_n w) []"

text \<open>
  \<open>worker2\<close>: both of its loops start at 0. \<open>pe\<close> is the test \<open>opt->flag & MEM_F_PE\<close>.
  In single-end mode read \<open>i\<close> is formatted, in paired-end mode the reads \<open>2i\<close> and
  \<open>2i+1\<close> for \<open>i\<close> below \<open>n>>1\<close>.
\<close>

definition worker2 :: "bool \<Rightarrow> worker \<Rightarrow> int list option" where
  "worker2 pe w =
     (if \<not> pe then worker_loop 0 (wk_step w) (wk_n w) []
      else map_option (\<lambda>is. concat (map (\<lambda>i. [2 * i, 2 * i + 1]) is))
             (worker_loop 0 (wk_step w) (wk_n w div 2) []))"

text \<open>The worker descriptors \<open>mem_process_seqs\<close> sets up for \<open>n\<close> reads.\<close>

definition mem_process_seqs_workers :: "int \<Rightarrow> int \<Rightarrow> worker list" where
  "mem_process_seqs_workers nthreads n =
     map (\<lambda>i. \<lparr>wk_start = int i, wk_step = nthreads, wk_n = n\<rparr>) [0..<nat nthreads]"

section \<open>Chain weights in \<open>mem_chain_flt\<close>\<close>

record mem_seed =
  s_rbeg :: int
  s_qbeg :: int
  s_len :: int

text \<open>
  The first inner loop of \<open>mem_chain_flt\<close> (lines 260--265) over the seeds of one chain,
  with the running values of \<open>w\<close> and \<open>end\<close>.
\<close>

fun flt_cov_q :: "mem_seed list \<Rightarrow> int \<Rightarrow> int \<Rightarrow> int" where
  "flt_cov_q [] w e = w"
| "flt_cov_q (s # ss) w e =
     flt_cov_q ss
       (if s_qbeg s \<ge> e then w + s_len s
        else if s_qbeg s + s_len s > e then w + (s_qbeg s + s_len s - e)
        else w)
       (if e > s_qbeg s + s_len s then e else s_qbeg s + s_len s)"

text \<open>
  The second inner loop (lines 267--272): the tests read \<open>rbeg\<close>, the update of \<open>end\<close>
  reads \<open>qbeg\<close>.
\<close>

fun flt_cov_r :: "mem_seed list \<Rightarrow> int \<Rightarrow> int \<Rightarrow> int" where
  "flt_cov_r [] w e = w"
| "flt_cov_r (s # ss) w e =
     flt_cov_r ss
       (if s_rbeg s \<ge> e then w + s_len s
        else if s_rbeg s + s_len s > e then w + (s_rbeg s + s_len s - e)
        else w)
       (if e > s_qbeg s + s_len s then e else s_qbeg s + s_len s)"

text \<open>
  The weight stored in \<open>a[i].w\<close>: \<open>w\<close> starts at 0, \<open>tmp = w\<close> after the first loop, the
  second loop goes on from that \<open>w\<close> with \<open>end = 0\<close>, and \<open>w = w < tmp ? w : tmp\<close>.
\<close>

definition flt_weight :: "mem_seed list \<Rightarrow> int" where
  "flt_weight seeds =
     (let w = flt_cov_q seeds 0 0;
          tmp = w;
          w = flt_cov_r seeds w 0
      in if w < tmp then w else tmp)"

text \<open>
  The specification's weight: the number of query positions, and of reference positions,
  covered by the union of the seeds, and the smaller of the two.
\<close>

definition cover_q :: "mem_seed list \<Rightarrow> int set" where
  "cover_q seeds = (\<Union>s \<in> set seeds. {s_qbeg s ..< s_qbeg s + s_len s})"

definition cover_r :: "mem_seed list \<Rightarrow> int set" where
  "cover_r seeds = (\<Union>s \<in> set seeds. {s_rbeg s ..< s_rbeg s + s_len s})"

definition spec_weight :: "mem_seed list \<Rightarrow> int" where
  "spec_weight seeds = min (int (card (cover_q seeds))) (int (card (cover_r seeds)))"

text \<open>
  Two 20-base seeds of one chain: 10 bases further on the reference, 30 on the query
  (a drift of 20, inside the default band).
\<close>

definition chain_drift :: "mem_seed list" where
  "chain_drift = [\<lparr>s_rbeg = 100, s_qbeg = 0, s_len = 20\<rparr>,
                  \<lparr>s_rbeg = 110, s_qbeg = 30, s_len = 20\<rparr>]"

section \<open>Sorting and de-duplicating regions: \<open>mem_sort_and_dedup\<close>\<close>

text \<open>The comparison macro \<open>alnreg_slt\<close> of line 331.\<close>

definition alnreg_slt :: "mem_alnreg \<Rightarrow> mem_alnreg \<Rightarrow> bool" where
  "alnreg_slt a b =
     (ar_score a > ar_score b \<or>
      (ar_score a = ar_score b \<and> (ar_rb a < ar_rb b \<or> (ar_rb a = ar_rb b \<and> ar_qb a < ar_qb b))))"

text \<open>
  The marking loop of lines 339--342, from index \<open>i\<close> on: a region with the score,
  \<open>rb\<close> and \<open>qb\<close> of its predecessor gets \<open>qe := qb\<close>.
\<close>

function dedup_mark :: "nat \<Rightarrow> nat \<Rightarrow> mem_alnreg list \<Rightarrow> mem_alnreg list" where
  "dedup_mark i n a =
     (if i < n
      then dedup_mark (i + 1) n
             (if ar_score (a ! i) = ar_score (a ! (i - 1)) \<and> ar_rb (a ! i) = ar_rb (a ! (i - 1))
                 \<and> ar_qb (a ! i) = ar_qb (a ! (i - 1))
              then a[i := (a ! i)\<lparr>ar_qe := ar_qb (a ! i)\<rparr>] else a)
      else a)"
  by pat_completeness auto
termination
  by (relation "measure (\<lambda>(i, n, a). n - i)") auto

text \<open>
  The compaction loop of lines 343--347 with its two counters \<open>i\<close> and \<open>m\<close>; it returns
  the final \<open>m\<close> and the array.
\<close>

function dedup_squeeze :: "nat \<Rightarrow> nat \<Rightarrow> nat \<Rightarrow> mem_alnreg list \<Rightarrow> nat \<times> mem_alnreg list" where
  "dedup_squeeze i m n a =
     (if i < n
      then (if ar_qe (a ! i) > ar_qb (a ! i)
            then (if m \<noteq> i then dedup_squeeze (i + 1) (m + 1) n (a[m := a ! i])
                  else dedup_squeeze (i + 1) (m + 1) n a)
            else dedup_squeeze (i + 1) m n a)
      else (m, a))"
  by pat_completeness auto
termination
  by (relation "measure (\<lambda>(i, m, n, a). n - i)") auto

text \<open>
  \<open>mem_sort_and_dedup\<close> returns \<open>m\<close> and leaves the survivors in \<open>a[0..m)\<close>. The sort
  \<open>ks_introsort(mem_ars, n, a)\<close> is generated by a macro of the absent \<open>ksort.h\<close>; it is a
  parameter. The array \<open>a\<close> holds exactly the \<open>n\<close> regions.
\<close>

definition mem_sort_and_dedup ::
  "(mem_alnreg list \<Rightarrow> mem_alnreg list) \<Rightarrow> int \<Rightarrow> mem_alnreg list \<Rightarrow> int \<times> mem_alnreg list" where
  "mem_sort_and_dedup ks_introsort n a =
     (if n \<le> 1 then (n, a)
      else (let a = ks_introsort a;
                a = dedup_mark 1 (nat n) a
            in case dedup_squeeze 1 1 (nat n) a of (m, a) \<Rightarrow> (int m, a)))"

text \<open>
  The triple \<open>(score, rb, qb)\<close> of a region, and the same triple with the score negated,
  whose lexicographic order is \<open>alnreg_slt\<close>.
\<close>

definition dedup_key :: "mem_alnreg \<Rightarrow> int \<times> int \<times> int" where
  "dedup_key r = (ar_score r, ar_rb r, ar_qb r)"

definition alnreg_key :: "mem_alnreg \<Rightarrow> int \<times> int \<times> int" where
  "alnreg_key r = (- ar_score r, ar_rb r, ar_qb r)"

text \<open>
  Three regions, the third a duplicate of the first in \<open>(score, rb, qb)\<close>, and a sort by
  \<open>alnreg_slt\<close> to run the function with.
\<close>

definition regions3 :: "mem_alnreg list" where
  "regions3 =
     [\<lparr>ar_rb = 100, ar_re = 150, ar_qb = 0, ar_qe = 50, ar_score = 50,
        ar_sub = 0, ar_csub = 0, ar_sub_n = 0, ar_seedcov = 50, ar_secondary = 0\<rparr>,
      \<lparr>ar_rb = 200, ar_re = 250, ar_qb = 0, ar_qe = 50, ar_score = 60,
        ar_sub = 0, ar_csub = 0, ar_sub_n = 0, ar_seedcov = 50, ar_secondary = 0\<rparr>,
      \<lparr>ar_rb = 100, ar_re = 140, ar_qb = 0, ar_qe = 40, ar_score = 50,
        ar_sub = 0, ar_csub = 0, ar_sub_n = 0, ar_seedcov = 40, ar_secondary = 0\<rparr>]"

definition ks_introsort_ars :: "mem_alnreg list \<Rightarrow> mem_alnreg list" where
  "ks_introsort_ars = sort_key alnreg_key"

section \<open>Primary and secondary regions: \<open>mem_mark_primary_se\<close>\<close>

text \<open>The loop of line 357: \<open>a[i].sub = 0, a[i].secondary = -1\<close> for \<open>i\<close> below \<open>n\<close>.\<close>

function mark_init :: "nat \<Rightarrow> nat \<Rightarrow> mem_alnreg list \<Rightarrow> mem_alnreg list" where
  "mark_init i n a =
     (if i < n then mark_init (i + 1) n (a[i := (a ! i)\<lparr>ar_sub := 0, ar_secondary := -1\<rparr>])
      else a)"
  by pat_completeness auto
termination
  by (relation "measure (\<lambda>(i, n, a). n - i)") auto

text \<open>
  The inner loop of lines 361--373 for region \<open>i\<close> over the primaries \<open>z\<close>, from position
  \<open>k\<close> on. It returns the \<open>k\<close> at which it stops (\<open>length z\<close> when it runs to the end) and
  the array. \<open>tmp\<close> is \<open>max(a + b, q + r)\<close>.
\<close>

function mark_inner ::
  "mem_opt \<Rightarrow> int \<Rightarrow> nat \<Rightarrow> nat \<Rightarrow> nat list \<Rightarrow> mem_alnreg list \<Rightarrow> nat \<times> mem_alnreg list" where
  "mark_inner opt tmp i k z a =
     (if k < length z
      then (let j = z ! k;
                b_max = (if ar_qb (a ! j) > ar_qb (a ! i) then ar_qb (a ! j) else ar_qb (a ! i));
                e_min = (if ar_qe (a ! j) < ar_qe (a ! i) then ar_qe (a ! j) else ar_qe (a ! i))
            in if e_min > b_max
               then (let min_l = (if ar_qe (a ! i) - ar_qb (a ! i) < ar_qe (a ! j) - ar_qb (a ! j)
                                  then ar_qe (a ! i) - ar_qb (a ! i)
                                  else ar_qe (a ! j) - ar_qb (a ! j))
                     in if real_of_int (e_min - b_max) \<ge> real_of_int min_l * mask_level opt
                        then (let a = (if ar_sub (a ! j) = 0
                                       then a[j := (a ! j)\<lparr>ar_sub := ar_score (a ! i)\<rparr>] else a);
                                  a = (if ar_score (a ! j) - ar_score (a ! i) \<le> tmp
                                       then a[j := (a ! j)\<lparr>ar_sub_n := ar_sub_n (a ! j) + 1\<rparr>] else a)
                              in (k, a))
                        else mark_inner opt tmp i (k + 1) z a)
               else mark_inner opt tmp i (k + 1) z a)
      else (k, a))"
  by pat_completeness auto
termination
  by (relation "measure (\<lambda>(opt, tmp, i, k, z, a). length z - k)") auto

text \<open>
  The outer loop of lines 360--376: region \<open>i\<close> joins \<open>z\<close> when the inner loop ran to the
  end, and otherwise gets \<open>secondary = z.a[k]\<close>.
\<close>

function mark_outer ::
  "mem_opt \<Rightarrow> int \<Rightarrow> nat \<Rightarrow> nat \<Rightarrow> nat list \<Rightarrow> mem_alnreg list \<Rightarrow> mem_alnreg list" where
  "mark_outer opt tmp i n z a =
     (if i < n
      then (case mark_inner opt tmp i 0 z a of
              (k, a) \<Rightarrow>
                if k = length z then mark_outer opt tmp (i + 1) n (z @ [i]) a
                else mark_outer opt tmp (i + 1) n z (a[i := (a ! i)\<lparr>ar_secondary := int (z ! k)\<rparr>]))
      else a)"
  by pat_completeness auto
termination
  by (relation "measure (\<lambda>(opt, tmp, i, n, z, a). n - i)") auto

text \<open>\<open>mem_mark_primary_se\<close> on the array \<open>a\<close> of \<open>n\<close> regions; the vector \<open>z\<close> starts as \<open>[0]\<close>.\<close>

definition mem_mark_primary_se :: "mem_opt \<Rightarrow> int \<Rightarrow> mem_alnreg list \<Rightarrow> mem_alnreg list" where
  "mem_mark_primary_se opt n a =
     (if n = 0 then a
      else (let a = mark_init 0 (nat n) a;
                tmp = (if opt_a opt + opt_b opt > opt_q opt + opt_r opt
                       then opt_a opt + opt_b opt else opt_q opt + opt_r opt)
            in mark_outer opt tmp 1 (nat n) [0] a))"

text \<open>
  What is claimed of the marked array: region 0 is primary, and a region with
  \<open>secondary \<ge> 0\<close> names an earlier region that is primary.
\<close>

definition primary_ok :: "mem_alnreg list \<Rightarrow> bool" where
  "primary_ok a \<longleftrightarrow>
     ar_secondary (a ! 0) = -1 \<and>
     (\<forall>i < length a. ar_secondary (a ! i) \<ge> 0 \<longrightarrow>
        ar_secondary (a ! i) < int i \<and> ar_secondary (a ! nat (ar_secondary (a ! i))) = -1)"

text \<open>
  The invariant of the outer loop, on the list of \<open>secondary\<close> fields: the members of \<open>z\<close>
  are below \<open>i\<close> and primary, 0 is one of them, the regions from \<open>i\<close> on are still
  unmarked, and every other region below \<open>i\<close> names a member of \<open>z\<close> below itself.
\<close>

definition primary_inv :: "nat \<Rightarrow> nat \<Rightarrow> nat list \<Rightarrow> int list \<Rightarrow> bool" where
  "primary_inv n i z ss \<longleftrightarrow>
     length ss = n \<and> (\<forall>j \<in> set z. j < i) \<and> 0 \<in> set z \<and>
     (\<forall>j < n. (j \<in> set z \<or> i \<le> j) \<longrightarrow> ss ! j = -1) \<and>
     (\<forall>j < i. j \<notin> set z \<longrightarrow> 0 \<le> ss ! j \<and> ss ! j < int j \<and> nat (ss ! j) \<in> set z)"

text \<open>Three regions in rank order: the second overlaps the first, the third neither.\<close>

definition regions_ranked :: "mem_alnreg list" where
  "regions_ranked =
     [\<lparr>ar_rb = 200, ar_re = 250, ar_qb = 0, ar_qe = 50, ar_score = 60,
        ar_sub = 7, ar_csub = 0, ar_sub_n = 0, ar_seedcov = 50, ar_secondary = 5\<rparr>,
      \<lparr>ar_rb = 100, ar_re = 150, ar_qb = 0, ar_qe = 50, ar_score = 50,
        ar_sub = 7, ar_csub = 0, ar_sub_n = 0, ar_seedcov = 50, ar_secondary = 5\<rparr>,
      \<lparr>ar_rb = 700, ar_re = 740, ar_qb = 60, ar_qe = 100, ar_score = 40,
        ar_sub = 7, ar_csub = 0, ar_sub_n = 0, ar_seedcov = 40, ar_secondary = 5\<rparr>]"

section \<open>Chaining: \<open>smem_next\<close>, \<open>test_and_merge\<close>, \<open>mem_insert_seed\<close>, \<open>mem_chain\<close>\<close>

text \<open>
  An SMEM as the FM-index collaborator returns it (\<open>bwtintv_t\<close>): the suffix-array interval
  \<open>x[0..2]\<close> and \<open>info = (qbeg << 32) | qend\<close>.
\<close>

record bwtintv =
  iv_x0 :: u64
  iv_x1 :: u64
  iv_x2 :: u64
  iv_info :: u64

text \<open>
  A chain (\<open>mem_chain_t\<close>). Every chain owns its seed buffer, so the buffer is held by
  value: \<open>c_seeds\<close> is the content \<open>seeds[0..n)\<close>, \<open>c_m\<close> the capacity.
\<close>

record mem_chain =
  c_pos :: int
  c_n :: int
  c_m :: int
  c_seeds :: "mem_seed list"

text \<open>The iterator state \<open>smem_i\<close>: the query, the cursor \<open>start\<close> and \<open>len\<close>.\<close>

record smem_i =
  itr_query :: "u8 list"
  itr_start :: int
  itr_len :: int

text \<open>\<open>s.qbeg = p->info>>32\<close>, stored in an \<open>int\<close>.\<close>

definition iv_qbeg :: "bwtintv \<Rightarrow> int" where
  "iv_qbeg p = sint (ucast (drop_bit 32 (iv_info p)) :: 32 word)"

text \<open>\<open>int slen = (uint32_t)p->info - (p->info>>32)\<close>: a 64-bit difference stored in an \<open>int\<close>.\<close>

definition iv_slen :: "bwtintv \<Rightarrow> int" where
  "iv_slen p = sint (ucast ((ucast (ucast (iv_info p) :: 32 word) :: 64 word) - drop_bit 32 (iv_info p)) :: 32 word)"

text \<open>The loop of line 122 that skips ambiguous bases.\<close>

function smem_skip :: "u8 list \<Rightarrow> int \<Rightarrow> int \<Rightarrow> int" where
  "smem_skip query len start =
     (if start < len \<and> query ! nat start > 3 then smem_skip query len (start + 1) else start)"
  by pat_completeness auto
termination
  by (relation "measure (\<lambda>(query, len, start). nat (len - start))") auto

text \<open>
  \<open>smem_next\<close>: \<open>None\<close> is the null pointer that ends the iteration. \<open>bwt_smem1\<close> is the
  FM-index collaborator, a parameter: \<open>bwt_smem1 len query x max_len min_intv\<close> yields the
  new cursor and the matches. (The loop of lines 126--130 only computes two locals that
  are never read.)
\<close>

definition smem_next ::
  "(int \<Rightarrow> u8 list \<Rightarrow> int \<Rightarrow> int \<Rightarrow> int \<Rightarrow> int \<times> bwtintv list) \<Rightarrow> smem_i \<Rightarrow> int \<Rightarrow> int \<Rightarrow>
   bwtintv list option \<times> smem_i" where
  "smem_next bwt_smem1 itr max_len min_iv =
     (if itr_start itr \<ge> itr_len itr \<or> itr_start itr < 0 then (None, itr)
      else (let itr = itr\<lparr>itr_start := smem_skip (itr_query itr) (itr_len itr) (itr_start itr)\<rparr>
            in if itr_start itr = itr_len itr then (None, itr)
               else (case bwt_smem1 (itr_len itr) (itr_query itr) (itr_start itr) max_len min_iv of
                       (ret, matches) \<Rightarrow> (Some matches, itr\<lparr>itr_start := ret\<rparr>))))"

text \<open>
  Modelled from the spec: the B-tree of the absent \<open>kbtree.h\<close>, "an ordered tree keyed by
  chain anchor position" (section 4.2), as the list of its chains in key order.
  \<open>kb_intervalp\<close> finds "the chain with the largest \<open>pos \<le> seed.rbeg\<close> (predecessor)",
  here its index; \<open>kb_putp\<close> inserts a chain; the in-order traversal is the list itself.
\<close>

definition kb_intervalp_lower :: "mem_chain list \<Rightarrow> int \<Rightarrow> nat option" where
  "kb_intervalp_lower tree pos =
     (let k = length (takeWhile (\<lambda>c. c_pos c \<le> pos) tree)
      in if k = 0 then None else Some (k - 1))"

definition kb_putp :: "mem_chain list \<Rightarrow> mem_chain \<Rightarrow> mem_chain list" where
  "kb_putp tree c =
     takeWhile (\<lambda>x. c_pos x \<le> c_pos c) tree @ c # dropWhile (\<lambda>x. c_pos x \<le> c_pos c) tree"

text \<open>\<open>test_and_merge\<close> returns its \<open>int\<close> and the chain \<open>*c\<close> as it leaves it.\<close>

definition test_and_merge :: "mem_opt \<Rightarrow> mem_chain \<Rightarrow> mem_seed \<Rightarrow> int \<times> mem_chain" where
  "test_and_merge opt c p =
     (let last = c_seeds c ! nat (c_n c - 1);
          qend = s_qbeg last + s_len last;
          rend = s_rbeg last + s_len last
      in if s_qbeg p \<ge> s_qbeg (c_seeds c ! 0) \<and> s_qbeg p + s_len p \<le> qend
            \<and> s_rbeg p \<ge> s_rbeg (c_seeds c ! 0) \<and> s_rbeg p + s_len p \<le> rend
         then (1, c)
         else (let x = s_qbeg p - s_qbeg last;
                   y = s_rbeg p - s_rbeg last
               in if y \<ge> 0 \<and> x - y \<le> opt_w opt \<and> y - x \<le> opt_w opt
                     \<and> x - s_len last < max_chain_gap opt \<and> y - s_len last < max_chain_gap opt
                  then (1, c\<lparr>c_m := (if c_n c = c_m c then 2 * c_m c else c_m c),
                             c_seeds := c_seeds c @ [p],
                             c_n := c_n c + 1\<rparr>)
                  else (0, c)))"

text \<open>
  The body of the loop over the occurrences of one SMEM (lines 175--190) for the seed
  \<open>s\<close>: the closest chain is tried, and a new chain is added when there is none or the
  seed does not fit.
\<close>

definition insert_occ :: "mem_opt \<Rightarrow> mem_seed \<Rightarrow> mem_chain list \<Rightarrow> mem_chain list" where
  "insert_occ opt s tree =
     (let tmp_pos = s_rbeg s;
          (to_add, tree) =
            (if length tree \<noteq> 0
             then (case kb_intervalp_lower tree tmp_pos of
                     None \<Rightarrow> (True, tree)
                   | Some l \<Rightarrow>
                       (case test_and_merge opt (tree ! l) s of
                          (ret, c) \<Rightarrow> (ret = 0, tree[l := c])))
             else (True, tree))
      in if to_add
         then kb_putp tree \<lparr>c_pos = tmp_pos, c_n = 1, c_m = 4, c_seeds = [s]\<rparr>
         else tree)"

text \<open>
  The loop \<^verbatim>\<open>for (k = 0; k < p->x[2]; ++k)\<close>; \<open>bwt_sa\<close> is the suffix-array lookup of
  the collaborator, a parameter.
\<close>

function insert_occs ::
  "mem_opt \<Rightarrow> (u64 \<Rightarrow> u64) \<Rightarrow> bwtintv \<Rightarrow> int \<Rightarrow> nat \<Rightarrow> mem_chain list \<Rightarrow> mem_chain list" where
  "insert_occs opt bwt_sa p slen k tree =
     (if k < unat (iv_x2 p)
      then insert_occs opt bwt_sa p slen (k + 1)
             (insert_occ opt \<lparr>s_rbeg = sint (bwt_sa (iv_x0 p + of_nat k)), s_qbeg = iv_qbeg p, s_len = slen\<rparr> tree)
      else tree)"
  by pat_completeness auto
termination
  by (relation "measure (\<lambda>(opt, bwt_sa, p, slen, k, tree). unat (iv_x2 p) - k)") auto

text \<open>The loop over one batch of SMEMs (lines 169--192).\<close>

function insert_batch ::
  "mem_opt \<Rightarrow> (u64 \<Rightarrow> u64) \<Rightarrow> bwtintv list \<Rightarrow> mem_chain list \<Rightarrow> mem_chain list" where
  "insert_batch opt bwt_sa [] tree = tree"
| "insert_batch opt bwt_sa (p # ps) tree =
     (let slen = iv_slen p
      in if slen < min_seed_len opt \<or> iv_x2 p > word_of_int (max_occ opt)
         then insert_batch opt bwt_sa ps tree
         else insert_batch opt bwt_sa ps (insert_occs opt bwt_sa p slen 0 tree))"
  by pat_completeness auto
termination
  by (relation "measure (\<lambda>(opt, bwt_sa, ps, tree). length ps)") simp_all

text \<open>
  The \<open>while\<close> loop of \<open>mem_insert_seed\<close>. It ends only when the iterator returns the null
  pointer, which depends on the collaborator: the function is partial.
\<close>

partial_function (option) mem_insert_seed ::
  "mem_opt \<Rightarrow> (int \<Rightarrow> u8 list \<Rightarrow> int \<Rightarrow> int \<Rightarrow> int \<Rightarrow> int \<times> bwtintv list) \<Rightarrow> (u64 \<Rightarrow> u64) \<Rightarrow>
   smem_i \<Rightarrow> mem_chain list \<Rightarrow> mem_chain list option" where
  "mem_insert_seed opt bwt_smem1 bwt_sa itr tree =
     (case smem_next bwt_smem1 itr (max_seed_len opt) (min_intv opt) of
        (None, itr) \<Rightarrow> Some tree
      | (Some a, itr) \<Rightarrow> mem_insert_seed opt bwt_smem1 bwt_sa itr (insert_batch opt bwt_sa a tree))"

text \<open>
  \<open>mem_chain\<close>: the chain vector, or \<open>None\<close> when the iteration does not end. The tree
  starts empty and is traversed in order.
\<close>

definition mem_chain ::
  "mem_opt \<Rightarrow> (int \<Rightarrow> u8 list \<Rightarrow> int \<Rightarrow> int \<Rightarrow> int \<Rightarrow> int \<times> bwtintv list) \<Rightarrow> (u64 \<Rightarrow> u64) \<Rightarrow>
   int \<Rightarrow> u8 list \<Rightarrow> mem_chain list option" where
  "mem_chain opt bwt_smem1 bwt_sa len seq =
     (if len < min_seed_len opt then Some []
      else mem_insert_seed opt bwt_smem1 bwt_sa \<lparr>itr_query = seq, itr_start = 0, itr_len = len\<rparr> [])"

text \<open>
  The chain invariant of the specification for two consecutive seeds \<open>s\<close>, \<open>t\<close>: both
  coordinates do not decrease, and the diagonal drift is at most \<open>w\<close>.
\<close>

definition seeds_colinear :: "int \<Rightarrow> mem_seed \<Rightarrow> mem_seed \<Rightarrow> bool" where
  "seeds_colinear w s t \<longleftrightarrow>
     s_qbeg s \<le> s_qbeg t \<and> s_rbeg s \<le> s_rbeg t \<and>
     \<bar>(s_qbeg t - s_qbeg s) - (s_rbeg t - s_rbeg s)\<bar> \<le> w"

definition chain_colinear :: "int \<Rightarrow> mem_chain \<Rightarrow> bool" where
  "chain_colinear w c \<longleftrightarrow> successively (seeds_colinear w) (take (nat (c_n c)) (c_seeds c))"

text \<open>
  The part of the invariant that \<open>test_and_merge\<close> tests itself: the reference
  coordinate does not decrease and the diagonal drift is at most \<open>w\<close>.
\<close>

definition seeds_rdrift :: "int \<Rightarrow> mem_seed \<Rightarrow> mem_seed \<Rightarrow> bool" where
  "seeds_rdrift w s t \<longleftrightarrow>
     s_rbeg s \<le> s_rbeg t \<and> \<bar>(s_qbeg t - s_qbeg s) - (s_rbeg t - s_rbeg s)\<bar> \<le> w"

definition chain_rwf :: "int \<Rightarrow> mem_chain \<Rightarrow> bool" where
  "chain_rwf w c \<longleftrightarrow>
     c_n c = int (length (c_seeds c)) \<and> c_seeds c \<noteq> [] \<and>
     successively (seeds_rdrift w) (c_seeds c)"

text \<open>
  What the chainer relies on from the SMEM collaborator (line 151: "always non-negative"):
  the cursor does not move backwards, the matches of one call are ordered by their query
  start, and the matches of a later call do not start before those of an earlier one.
\<close>

definition smem_ordered ::
  "(int \<Rightarrow> u8 list \<Rightarrow> int \<Rightarrow> int \<Rightarrow> int \<Rightarrow> int \<times> bwtintv list) \<Rightarrow> mem_opt \<Rightarrow> int \<Rightarrow> u8 list \<Rightarrow> bool" where
  "smem_ordered bwt_smem1 opt len q \<longleftrightarrow>
     (\<forall>x. 0 \<le> x \<and> x < len \<longrightarrow>
        x \<le> fst (bwt_smem1 len q x (max_seed_len opt) (min_intv opt)) \<and>
        sorted (map iv_qbeg (snd (bwt_smem1 len q x (max_seed_len opt) (min_intv opt)))) \<and>
        (\<forall>y. fst (bwt_smem1 len q x (max_seed_len opt) (min_intv opt)) \<le> y \<and> y < len \<longrightarrow>
           (\<forall>p \<in> set (snd (bwt_smem1 len q x (max_seed_len opt) (min_intv opt))).
              \<forall>p' \<in> set (snd (bwt_smem1 len q y (max_seed_len opt) (min_intv opt))).
                iv_qbeg p \<le> iv_qbeg p')))"

text \<open>
  The invariant of the tree while seeds are inserted: every chain holds \<open>n \<ge> 1\<close> seeds
  that are pairwise colinear in sequence; \<open>tree_qbegs\<close> are the query starts of all seeds.
\<close>

definition chain_wf :: "int \<Rightarrow> mem_chain \<Rightarrow> bool" where
  "chain_wf w c \<longleftrightarrow>
     c_n c = int (length (c_seeds c)) \<and> c_seeds c \<noteq> [] \<and>
     successively (seeds_colinear w) (c_seeds c)"

definition tree_wf :: "int \<Rightarrow> mem_chain list \<Rightarrow> bool" where
  "tree_wf w tree \<longleftrightarrow> (\<forall>c \<in> set tree. chain_wf w c)"

definition tree_qbegs :: "mem_chain list \<Rightarrow> int set" where
  "tree_qbegs tree = (\<Union>c \<in> set tree. s_qbeg ` set (c_seeds c))"

text \<open>
  A collaborator for a 25-base read: one call returns the matches \<open>[0, 20)\<close> with one
  occurrence and \<open>[5, 25)\<close> with two, and moves the cursor to the end.
\<close>

definition smem1_two :: "int \<Rightarrow> u8 list \<Rightarrow> int \<Rightarrow> int \<Rightarrow> int \<Rightarrow> int \<times> bwtintv list" where
  "smem1_two len q x max_len min_iv =
     (len, if x = 0 then [\<lparr>iv_x0 = 0, iv_x1 = 0, iv_x2 = 1, iv_info = 20\<rparr>,
                          \<lparr>iv_x0 = 1, iv_x1 = 0, iv_x2 = 2, iv_info = 0x500000019\<rparr>] else [])"

definition sa_two :: "u64 \<Rightarrow> u64" where
  "sa_two k = (if k = 0 then 100 else if k = 1 then 105 else 5000)"

definition chains_two :: "mem_chain list" where
  "chains_two =
     [\<lparr>c_pos = 100, c_n = 2, c_m = 4,
        c_seeds = [\<lparr>s_rbeg = 100, s_qbeg = 0, s_len = 20\<rparr>, \<lparr>s_rbeg = 105, s_qbeg = 5, s_len = 20\<rparr>]\<rparr>,
      \<lparr>c_pos = 5000, c_n = 1, c_m = 4, c_seeds = [\<lparr>s_rbeg = 5000, s_qbeg = 5, s_len = 20\<rparr>]\<rparr>]"

section \<open>Filtering chains: \<open>mem_chain_flt\<close>\<close>

text \<open>
  \<open>flt_aux_t\<close>. The pointers \<open>p\<close> and \<open>p2\<close> point into the array \<open>chains\<close>; they are
  indices, \<open>None\<close> the null pointer.
\<close>

record flt_aux =
  fa_beg :: int
  fa_end :: int
  fa_w :: int
  fa_p :: nat
  fa_p2 :: "nat option"

text \<open>
  What \<open>mem_chain_flt\<close> leaves behind: the returned count, the array \<open>chains\<close> (the
  caller reads its first \<open>n\<close> entries), and the chains whose seed buffer it passed to
  \<open>free\<close>, as their positions in the reordered array, in the order of the calls.
\<close>

record flt_result =
  fr_n :: int
  fr_chains :: "mem_chain list"
  fr_freed :: "nat list"

text \<open>The body of the first loop (lines 257--276) for chain \<open>i\<close>.\<close>

definition flt_aux_init :: "mem_chain list \<Rightarrow> nat \<Rightarrow> flt_aux" where
  "flt_aux_init chs i =
     (let c = chs ! i;
          last = c_seeds c ! nat (c_n c - 1)
      in \<lparr>fa_beg = s_qbeg (c_seeds c ! 0),
          fa_end = s_qbeg last + s_len last,
          fa_w = flt_weight (take (nat (c_n c)) (c_seeds c)),
          fa_p = i, fa_p2 = None\<rparr>)"

definition flt_aux_all :: "int \<Rightarrow> mem_chain list \<Rightarrow> flt_aux list" where
  "flt_aux_all n_chn chs = map (flt_aux_init chs) [0..<nat n_chn]"

text \<open>
  Lines 279--288: \<open>swap[i] = *a[i].p\<close>, \<open>a[i].p = &chains[i]\<close>, and \<open>swap\<close> is copied over
  \<open>chains\<close>.
\<close>

definition flt_reorder :: "mem_chain list \<Rightarrow> flt_aux list \<Rightarrow> mem_chain list \<times> flt_aux list" where
  "flt_reorder chs a =
     (map (\<lambda>x. chs ! fa_p x) a, map (\<lambda>i. (a ! i)\<lparr>fa_p := i\<rparr>) [0..<length a])"

text \<open>
  The inner loop of lines 290--301 for candidate \<open>i\<close> against the accepted entries
  \<open>a[0..n)\<close>, from \<open>j\<close> on. It returns the \<open>j\<close> at which it stops (\<open>n\<close> when no accepted
  chain rejects the candidate) and the array.
\<close>

function flt_inner :: "mem_opt \<Rightarrow> nat \<Rightarrow> nat \<Rightarrow> nat \<Rightarrow> flt_aux list \<Rightarrow> nat \<times> flt_aux list" where
  "flt_inner opt i j n a =
     (if j < n
      then (let b_max = (if fa_beg (a ! j) > fa_beg (a ! i) then fa_beg (a ! j) else fa_beg (a ! i));
                e_min = (if fa_end (a ! j) < fa_end (a ! i) then fa_end (a ! j) else fa_end (a ! i))
            in if e_min > b_max
               then (let min_l = (if fa_end (a ! i) - fa_beg (a ! i) < fa_end (a ! j) - fa_beg (a ! j)
                                  then fa_end (a ! i) - fa_beg (a ! i)
                                  else fa_end (a ! j) - fa_beg (a ! j))
                     in if real_of_int (e_min - b_max) \<ge> real_of_int min_l * mask_level opt
                        then (let a = (if fa_p2 (a ! j) = None
                                       then a[j := (a ! j)\<lparr>fa_p2 := Some (fa_p (a ! i))\<rparr>] else a)
                              in if real_of_int (fa_w (a ! i)) < real_of_int (fa_w (a ! j)) * chain_drop_ratio opt
                                    \<and> fa_w (a ! j) - fa_w (a ! i) \<ge> 2 * min_seed_len opt
                                 then (j, a)
                                 else flt_inner opt i (j + 1) n a)
                        else flt_inner opt i (j + 1) n a)
               else flt_inner opt i (j + 1) n a)
      else (j, a))"
  by pat_completeness auto
termination
  by (relation "measure (\<lambda>(opt, i, j, n, a). n - j)") auto

text \<open>The outer loop of lines 289--303; it returns the number of accepted entries.\<close>

function flt_outer :: "mem_opt \<Rightarrow> nat \<Rightarrow> nat \<Rightarrow> nat \<Rightarrow> flt_aux list \<Rightarrow> nat \<times> flt_aux list" where
  "flt_outer opt i n n_chn a =
     (if i < n_chn
      then (case flt_inner opt i 0 n a of
              (j, a) \<Rightarrow>
                if j = n then flt_outer opt (i + 1) (n + 1) n_chn (a[n := a ! i])
                else flt_outer opt (i + 1) n n_chn a)
      else (n, a))"
  by pat_completeness auto
termination
  by (relation "measure (\<lambda>(opt, i, n, n_chn, a). n_chn - i)") auto

text \<open>\<open>if (c->n > 0) c->n = -c->n\<close> for the chain at position \<open>k\<close>.\<close>

definition flt_negate :: "nat \<Rightarrow> mem_chain list \<Rightarrow> mem_chain list" where
  "flt_negate k chs = (if c_n (chs ! k) > 0 then chs[k := (chs ! k)\<lparr>c_n := - c_n (chs ! k)\<rparr>] else chs)"

text \<open>The loop of lines 304--309 that marks the chains to keep.\<close>

function flt_mark :: "nat \<Rightarrow> nat \<Rightarrow> flt_aux list \<Rightarrow> mem_chain list \<Rightarrow> mem_chain list" where
  "flt_mark i n a chs =
     (if i < n
      then flt_mark (i + 1) n a
             (let chs = flt_negate (fa_p (a ! i)) chs
              in case fa_p2 (a ! i) of None \<Rightarrow> chs | Some k \<Rightarrow> flt_negate k chs)
      else chs)"
  by pat_completeness auto
termination
  by (relation "measure (\<lambda>(i, n, a, chs). n - i)") auto

text \<open>
  The loop of lines 311--317: a chain whose \<open>n\<close> is not negative has its seeds freed
  and \<open>n = m = 0\<close>, the others get their \<open>n\<close> back.
\<close>

function flt_free :: "nat \<Rightarrow> nat \<Rightarrow> mem_chain list \<Rightarrow> nat list \<Rightarrow> mem_chain list \<times> nat list" where
  "flt_free i n_chn chs freed =
     (if i < n_chn
      then (if c_n (chs ! i) \<ge> 0
            then flt_free (i + 1) n_chn (chs[i := (chs ! i)\<lparr>c_n := 0, c_m := 0\<rparr>]) (freed @ [i])
            else flt_free (i + 1) n_chn (chs[i := (chs ! i)\<lparr>c_n := - c_n (chs ! i)\<rparr>]) freed)
      else (chs, freed))"
  by pat_completeness auto
termination
  by (relation "measure (\<lambda>(i, n_chn, chs, freed). n_chn - i)") auto

text \<open>The compaction loop of lines 318--323.\<close>

function flt_squeeze :: "nat \<Rightarrow> nat \<Rightarrow> nat \<Rightarrow> mem_chain list \<Rightarrow> nat \<times> mem_chain list" where
  "flt_squeeze i n n_chn chs =
     (if i < n_chn
      then (if c_n (chs ! i) > 0
            then (if n \<noteq> i then flt_squeeze (i + 1) (n + 1) n_chn (chs[n := chs ! i])
                  else flt_squeeze (i + 1) (n + 1) n_chn chs)
            else flt_squeeze (i + 1) n n_chn chs)
      else (n, chs))"
  by pat_completeness auto
termination
  by (relation "measure (\<lambda>(i, n, n_chn, chs). n_chn - i)") auto

text \<open>
  The array \<open>chains\<close> and the array \<open>a\<close> after sorting and reordering.
  \<open>ks_introsort(mem_flt, n_chn, a)\<close> is generated by a macro of the absent \<open>ksort.h\<close>; it
  is a parameter.
\<close>

definition flt_sorted ::
  "(flt_aux list \<Rightarrow> flt_aux list) \<Rightarrow> int \<Rightarrow> mem_chain list \<Rightarrow> mem_chain list \<times> flt_aux list" where
  "flt_sorted ks_introsort n_chn chs = flt_reorder chs (ks_introsort (flt_aux_all n_chn chs))"

text \<open>The acceptance loop on them, which starts with \<open>i = 1\<close>, \<open>n = 1\<close>.\<close>

definition flt_accept ::
  "(flt_aux list \<Rightarrow> flt_aux list) \<Rightarrow> mem_opt \<Rightarrow> int \<Rightarrow> mem_chain list \<Rightarrow> nat \<times> flt_aux list" where
  "flt_accept ks_introsort opt n_chn chs =
     flt_outer opt 1 1 (nat n_chn) (snd (flt_sorted ks_introsort n_chn chs))"

text \<open>\<open>mem_chain_flt\<close> on the array \<open>chains\<close> of \<open>n_chn\<close> chains.\<close>

definition mem_chain_flt ::
  "(flt_aux list \<Rightarrow> flt_aux list) \<Rightarrow> mem_opt \<Rightarrow> int \<Rightarrow> mem_chain list \<Rightarrow> flt_result" where
  "mem_chain_flt ks_introsort opt n_chn chs =
     (if n_chn \<le> 1 then \<lparr>fr_n = n_chn, fr_chains = chs, fr_freed = []\<rparr>
      else (case flt_accept ks_introsort opt n_chn chs of
              (n, a) \<Rightarrow>
                (let chs = fst (flt_sorted ks_introsort n_chn chs);
                     chs = flt_mark 0 n a chs
                 in case flt_free 0 (nat n_chn) chs [] of
                      (chs, freed) \<Rightarrow>
                        (case flt_squeeze 0 0 (nat n_chn) chs of
                           (n, chs) \<Rightarrow> \<lparr>fr_n = int n, fr_chains = chs, fr_freed = freed\<rparr>))))"

text \<open>
  The accepted chains, in the order of their acceptance, and the chains recorded in the
  \<open>p2\<close> fields of the accepted entries, both as positions in the reordered array.
\<close>

definition flt_accepted ::
  "(flt_aux list \<Rightarrow> flt_aux list) \<Rightarrow> mem_opt \<Rightarrow> int \<Rightarrow> mem_chain list \<Rightarrow> nat list" where
  "flt_accepted ks_introsort opt n_chn chs =
     (case flt_accept ks_introsort opt n_chn chs of (n, a) \<Rightarrow> map fa_p (take n a))"

definition flt_partners ::
  "(flt_aux list \<Rightarrow> flt_aux list) \<Rightarrow> mem_opt \<Rightarrow> int \<Rightarrow> mem_chain list \<Rightarrow> nat list" where
  "flt_partners ks_introsort opt n_chn chs =
     (case flt_accept ks_introsort opt n_chn chs of
        (n, a) \<Rightarrow> concat (map (\<lambda>x. case fa_p2 x of None \<Rightarrow> [] | Some k \<Rightarrow> [k]) (take n a)))"

text \<open>
  A sort by weight descending (\<open>flt_lt\<close>) to run the function with, and three one-seed
  chains: query \<open>[0, 20)\<close>, query \<open>[0, 100)\<close> and query \<open>[10, 30)\<close>.
\<close>

definition ks_introsort_flt :: "flt_aux list \<Rightarrow> flt_aux list" where
  "ks_introsort_flt = sort_key (\<lambda>x. - fa_w x)"

definition chains_abc :: "mem_chain list" where
  "chains_abc =
     [\<lparr>c_pos = 5000, c_n = 1, c_m = 4, c_seeds = [\<lparr>s_rbeg = 5000, s_qbeg = 0, s_len = 20\<rparr>]\<rparr>,
      \<lparr>c_pos = 1000, c_n = 1, c_m = 4, c_seeds = [\<lparr>s_rbeg = 1000, s_qbeg = 0, s_len = 100\<rparr>]\<rparr>,
      \<lparr>c_pos = 9010, c_n = 1, c_m = 4, c_seeds = [\<lparr>s_rbeg = 9010, s_qbeg = 10, s_len = 20\<rparr>]\<rparr>]"

text \<open>The positions that the marking loop visits for the entries \<open>xs\<close>.\<close>

definition flt_marks :: "flt_aux list \<Rightarrow> nat list" where
  "flt_marks xs = concat (map (\<lambda>x. fa_p x # (case fa_p2 x of None \<Rightarrow> [] | Some k \<Rightarrow> [k])) xs)"

text \<open>
  How the inner loop for a candidate at position \<open>v\<close> may change the array: no \<open>p\<close>
  changes, and a \<open>p2\<close> changes only to \<open>v\<close>.
\<close>

definition flt_rel :: "nat \<Rightarrow> flt_aux list \<Rightarrow> flt_aux list \<Rightarrow> bool" where
  "flt_rel v a a' \<longleftrightarrow>
     length a' = length a \<and> map fa_p a' = map fa_p a \<and>
     (\<forall>k < length a. fa_p2 (a' ! k) = fa_p2 (a ! k) \<or> fa_p2 (a' ! k) = Some v)"

section \<open>Properties of \<open>bwa_gen_cigar\<close>\<close>

text \<open>
  Claim C7. A region whose reference window straddles the forward/reverse boundary
  (\<open>rb < l_pac < re\<close>) yields no CIGAR: \<open>bwa_gen_cigar\<close> returns the null pointer and
  leaves \<open>n_cigar = 0\<close>; the same holds when \<open>l_query \<le> 0\<close> or \<open>rb \<ge> re\<close>. Neither
  collaborator is consulted and the query is untouched.
\<close>

theorem bwa_gen_cigar_rejects:
  assumes "(rb < l_pac \<and> l_pac < re) \<or> l_query \<le> 0 \<or> rb \<ge> re"
  shows "bwa_gen_cigar get_seq ksw_global mat q r w_opt l_pac l_query query rb re
           = (\<lparr>gc_cigar = None, gc_n_cigar = 0, gc_score = None\<rparr>, query)"
  using assms unfolding bwa_gen_cigar_def by auto

theorem bwa_gen_cigar_rejects_witness:
  "((90::int) < 100 \<and> (100::int) < 120) \<and>
   bwa_gen_cigar get_seq_zero ksw_probe scmat_1_4 6 1 100 100 30 (replicate 30 0) 90 120
     = (\<lparr>gc_cigar = None, gc_n_cigar = 0, gc_score = None\<rparr>, replicate 30 0)"
  using bwa_gen_cigar_rejects [of 90 100 120 30 get_seq_zero ksw_probe scmat_1_4 6 1 100
      "replicate 30 0"]
  by simp

text \<open>
  Claim C2. The specification gives the band width handed to the global-alignment kernel
  as \<open>min(w_opt, max(1, floor((l_query * match - q) / r) + 1)) + |rlen - l_query|\<close>.
  The code takes the minimum with 1 where the formula (and the sibling \<open>cal_max_gap\<close>)
  takes the maximum: for a 50-base query against a 50-base window with the default
  scores the kernel is called with band width 1, the formula gives 45.
\<close>

theorem bwa_gen_cigar_band_width_at_50:
  "bwa_gen_cigar_w 1 6 1 100 50 50 = 1 \<and>
   spec_band_width 1 6 1 100 50 50 = 45 \<and>
   gc_score (fst (bwa_gen_cigar get_seq_zero ksw_probe scmat_1_4 6 1 100 1000 50
                    (replicate 50 0) 200 250)) = Some 1"
  by (simp add: bwa_gen_cigar_w_def spec_band_width_def c_int_of_double_def
      bwa_gen_cigar_def get_seq_zero_def ksw_probe_def scmat_1_4_def)


section \<open>Properties of \<open>mem_approx_mapq_se\<close>\<close>

text \<open>
  Claim C8. \<open>mem_approx_mapq_se\<close> returns 0 whenever the effective suboptimal score
  \<open>max(a.sub != 0 ? a.sub : min_seed_len * a, a.csub)\<close> is at least \<open>a.score\<close>, and in
  every case the mapping quality it returns lies between 0 and 60.
\<close>

theorem mem_approx_mapq_se_range:
  "(sub_eff opt a \<ge> ar_score a \<longrightarrow> mem_approx_mapq_se coef opt a = 0) \<and>
   0 \<le> mem_approx_mapq_se coef opt a \<and> mem_approx_mapq_se coef opt a \<le> 60"
  unfolding mem_approx_mapq_se_def sub_eff_def Let_def by (auto simp: max_def)

theorem mem_approx_mapq_se_range_witness:
  "sub_eff mem_opt_init region_low \<ge> ar_score region_low \<and>
   mem_approx_mapq_se 30 mem_opt_init region_low = 0"
  using mem_approx_mapq_se_range [where opt = mem_opt_init and a = region_low and coef = 30]
  by (simp add: sub_eff_def mem_opt_init_def region_low_def)

section \<open>Properties of the batch driver\<close>

text \<open>
  With a positive step the loop ends, and visits each index of the residue class of its
  start below \<open>n\<close> exactly once.
\<close>

lemma worker_loop_pos:
  "0 < step \<Longrightarrow> \<exists>ys. worker_loop i step n visited = Some (visited @ ys) \<and>
      set ys = {j. i \<le> j \<and> j < n \<and> (j - i) mod step = 0} \<and> distinct ys"
proof (induction "nat (n - i)" arbitrary: i visited rule: less_induct)
  case less
  show ?case
  proof (cases "i < n")
    case False
    then show ?thesis by (subst worker_loop.simps) auto
  next
    case True
    have "nat (n - (i + step)) < nat (n - i)" using True less.prems by linarith
    from less.hyps [OF this less.prems, of "visited @ [i]"]
    obtain ys where ys:
      "worker_loop (i + step) step n (visited @ [i]) = Some ((visited @ [i]) @ ys)"
      "set ys = {j. i + step \<le> j \<and> j < n \<and> (j - (i + step)) mod step = 0}" "distinct ys"
      by blast
    have eq: "{j. i \<le> j \<and> j < n \<and> (j - i) mod step = 0}
                = insert i {j. i + step \<le> j \<and> j < n \<and> (j - (i + step)) mod step = 0}"
      (is "?L = insert i ?R")
    proof (rule set_eqI)
      fix j
      show "j \<in> ?L \<longleftrightarrow> j \<in> insert i ?R"
      proof
        assume "j \<in> ?L"
        then have j: "i \<le> j" "j < n" "(j - i) mod step = 0" by auto
        show "j \<in> insert i ?R"
        proof (cases "j = i")
          case True then show ?thesis by simp
        next
          case False
          with j have "0 < j - i" by simp
          with j(3) less.prems have "step \<le> j - i"
            by (metis mod_pos_pos_trivial not_le less_le)
          moreover have "(j - (i + step)) mod step = 0"
            using j(3) by (metis diff_diff_eq mod_0_imp_dvd dvd_diff dvd_refl dvd_imp_mod_0)
          ultimately show ?thesis using j by auto
        qed
      next
        assume "j \<in> insert i ?R"
        then show "j \<in> ?L"
        proof
          assume "j = i" then show ?thesis using True by simp
        next
          assume "j \<in> ?R"
          then have j: "i + step \<le> j" "j < n" "(j - (i + step)) mod step = 0" by auto
          have "(j - i) mod step = 0"
            using j(3)
            by (metis diff_diff_eq mod_0_imp_dvd dvd_add_triv_right_iff dvd_imp_mod_0
                diff_add_cancel)
          then show ?thesis using j less.prems by auto
        qed
      qed
    qed
    have "i \<notin> set ys" using ys(2) less.prems by auto
    then show ?thesis
      using True ys eq by (subst worker_loop.simps) auto
  qed
qed

text \<open>
  Pass 1 is the round robin of the specification: worker \<open>k\<close> of \<open>mem_process_seqs\<close>
  visits exactly the reads \<open>k, k + n_threads, ...\<close> below \<open>n\<close>.
\<close>

lemma worker1_round_robin:
  assumes "k < nat nthreads"
  shows "\<exists>ys. worker1 (mem_process_seqs_workers nthreads n ! k) = Some ys \<and> distinct ys \<and>
           set ys = {j. int k \<le> j \<and> j < n \<and> (j - int k) mod nthreads = 0}"
proof -
  have "0 < nthreads" using assms by simp
  from worker_loop_pos [OF this, of "int k" n "[]"] assms
  show ?thesis by (auto simp: worker1_def mem_process_seqs_workers_def)
qed

text \<open>Pass 2 in single-end mode does not look at \<open>start\<close>: every worker does worker 0's share.\<close>

lemma worker2_ignores_start:
  "worker2 False w = worker1 (w\<lparr>wk_start := 0\<rparr>)"
  by (simp add: worker2_def worker1_def)

text \<open>
  Claim C3. The specification has worker \<open>k\<close> handle the reads \<open>k, k + n_threads, ...\<close>
  in both passes, so that the workers' shares are disjoint and cover the batch. For four
  reads and two threads, pass 1 does so; in pass 2 both workers handle the reads 0 and 2,
  and the reads 1 and 3 are handled by no worker.
\<close>

theorem worker2_shares_at_2_threads:
  "map worker1 (mem_process_seqs_workers 2 4) = [Some [0, 2], Some [1, 3]] \<and>
   map (worker2 False) (mem_process_seqs_workers 2 4) = [Some [0, 2], Some [0, 2]]"
  by (simp add: mem_process_seqs_workers_def worker1_def worker2_def worker_loop.simps
      upt_conv_Cons)

section \<open>Properties of the chain weight\<close>

lemma flt_cov_r_mono: "\<forall>s \<in> set seeds. 0 \<le> s_len s \<Longrightarrow> w \<le> flt_cov_r seeds w e"
proof (induction seeds arbitrary: w e)
  case Nil
  show ?case by simp
next
  case (Cons s ss)
  let ?w' = "(if s_rbeg s \<ge> e then w + s_len s
        else if s_rbeg s + s_len s > e then w + (s_rbeg s + s_len s - e)
        else w)"
  have "w \<le> ?w'" using Cons.prems by auto
  also have "?w' \<le> flt_cov_r (s # ss) w e"
    using Cons.IH [of ?w'] Cons.prems by simp
  finally show ?case .
qed

text \<open>
  Since the second loop adds to the count of the first, the minimum is always the first
  count: the reference axis never lowers a weight.
\<close>

lemma flt_weight_is_cov_q:
  "\<forall>s \<in> set seeds. 0 \<le> s_len s \<Longrightarrow> flt_weight seeds = flt_cov_q seeds 0 0"
  using flt_cov_r_mono [of seeds "flt_cov_q seeds 0 0" 0]
  by (simp add: flt_weight_def Let_def)

lemma cover_q_drift: "cover_q chain_drift = {0..<20} \<union> {30..<50}"
  by (auto simp: cover_q_def chain_drift_def)

lemma cover_r_drift: "cover_r chain_drift = {100..<130}"
  by (auto simp: cover_r_def chain_drift_def)

text \<open>The chain \<open>chain_drift\<close> is one that \<open>test_and_merge\<close> builds with the default options.\<close>

lemma chain_drift_built:
  "test_and_merge mem_opt_init
     \<lparr>c_pos = 100, c_n = 1, c_m = 4, c_seeds = [\<lparr>s_rbeg = 100, s_qbeg = 0, s_len = 20\<rparr>]\<rparr>
     \<lparr>s_rbeg = 110, s_qbeg = 30, s_len = 20\<rparr>
   = (1, \<lparr>c_pos = 100, c_n = 2, c_m = 4, c_seeds = chain_drift\<rparr>)"
  by (simp add: test_and_merge_def mem_opt_init_def chain_drift_def)

text \<open>
  Claim C1. The specification gives a chain the weight \<open>min(w_q, w_r)\<close>, the smaller of
  its covered query positions and its covered reference positions. For the chain
  \<open>chain_drift\<close> the seeds cover 40 query positions and 30 reference positions, so the
  weight should be 30; the code assigns 40, also as the field \<open>w\<close> that \<open>mem_chain_flt\<close>
  sorts and filters by.
\<close>

theorem flt_weight_drift:
  "flt_weight chain_drift = 40 \<and> int (card (cover_q chain_drift)) = 40 \<and>
   int (card (cover_r chain_drift)) = 30 \<and> spec_weight chain_drift = 30 \<and>
   fa_w (flt_aux_init [\<lparr>c_pos = 100, c_n = 2, c_m = 4, c_seeds = chain_drift\<rparr>,
                       \<lparr>c_pos = 900, c_n = 1, c_m = 4,
                          c_seeds = [\<lparr>s_rbeg = 900, s_qbeg = 60, s_len = 25\<rparr>]\<rparr>] 0) = 40"
proof -
  have q: "card (cover_q chain_drift) = 40"
    unfolding cover_q_drift by (subst card_Un_disjoint) auto
  have r: "card (cover_r chain_drift) = 30"
    unfolding cover_r_drift by simp
  have w: "flt_weight chain_drift = 40"
    by (simp add: flt_weight_def chain_drift_def)
  have "length chain_drift = 2" by (simp add: chain_drift_def)
  then have a: "fa_w (flt_aux_init [\<lparr>c_pos = 100, c_n = 2, c_m = 4, c_seeds = chain_drift\<rparr>,
                       \<lparr>c_pos = 900, c_n = 1, c_m = 4,
                          c_seeds = [\<lparr>s_rbeg = 900, s_qbeg = 60, s_len = 25\<rparr>]\<rparr>] 0) = 40"
    using w by (simp add: flt_aux_init_def Let_def)
  show ?thesis using q r w a by (simp add: spec_weight_def)
qed

section \<open>Properties of \<open>mem_sort_and_dedup\<close>\<close>

lemma alnreg_slt_key: "alnreg_slt a b \<longleftrightarrow> alnreg_key a < alnreg_key b"
  by (auto simp: alnreg_slt_def alnreg_key_def less_prod_def)

lemma alnreg_key_eq: "alnreg_key a = alnreg_key b \<longleftrightarrow> dedup_key a = dedup_key b"
  by (auto simp: alnreg_key_def dedup_key_def)

declare dedup_mark.simps [simp del] dedup_squeeze.simps [simp del]

lemma dedup_mark_inv:
  "i \<le> n \<Longrightarrow> length a = n \<Longrightarrow> 
   length (dedup_mark i n a) = n \<and>
   (\<forall>j < n. alnreg_key (dedup_mark i n a ! j) = alnreg_key (a ! j)) \<and>
   (\<forall>j < i. dedup_mark i n a ! j = a ! j) \<and>
   (\<forall>j < n. i \<le> j \<longrightarrow> ar_qe (dedup_mark i n a ! j) > ar_qb (dedup_mark i n a ! j) \<longrightarrow> 
        alnreg_key (a ! j) \<noteq> alnreg_key (a ! (j - 1)))"
proof (induction i n a rule: dedup_mark.induct)
  case (1 i n a)
  show ?case
  proof (cases "i < n")
    case False
    then show ?thesis using 1 by (simp add: dedup_mark.simps)
  next
    case True
    let ?a' = "(if ar_score (a ! i) = ar_score (a ! (i - 1)) \<and> ar_rb (a ! i) = ar_rb (a ! (i - 1))
                 \<and> ar_qb (a ! i) = ar_qb (a ! (i - 1))
              then a[i := (a ! i)\<lparr>ar_qe := ar_qb (a ! i)\<rparr>] else a)"
    have len: "length ?a' = n" using 1(3) by simp
    have keys: "\<And>j. j < n \<Longrightarrow> alnreg_key (?a' ! j) = alnreg_key (a ! j)"
      using 1(3) True by (auto simp: nth_list_update alnreg_key_def)
    have other: "\<And>j. j \<noteq> i \<Longrightarrow> ?a' ! j = a ! j" by auto
    have unf: "dedup_mark i n a = dedup_mark (i + 1) n ?a'"
      using True by (subst dedup_mark.simps) simp
    from 1(1) [OF True] True len
    have IH: "length (dedup_mark (i + 1) n ?a') = n"
      "\<And>j. j < n \<Longrightarrow> alnreg_key (dedup_mark (i + 1) n ?a' ! j) = alnreg_key (?a' ! j)"
      "\<And>j. j < i + 1 \<Longrightarrow> dedup_mark (i + 1) n ?a' ! j = ?a' ! j"
      "\<And>j. j < n \<Longrightarrow> i + 1 \<le> j \<Longrightarrow> ar_qe (dedup_mark (i + 1) n ?a' ! j) > ar_qb (dedup_mark (i + 1) n ?a' ! j) \<Longrightarrow>
          alnreg_key (?a' ! j) \<noteq> alnreg_key (?a' ! (j - 1))"
      by auto
    have c1: "length (dedup_mark i n a) = n" using IH(1) unf by simp
    have c2: "\<forall>j < n. alnreg_key (dedup_mark i n a ! j) = alnreg_key (a ! j)"
      using IH(2) keys unf by simp
    have c3: "\<forall>j < i. dedup_mark i n a ! j = a ! j"
      using IH(3) other unf by simp
    have c4: "\<forall>j < n. i \<le> j \<longrightarrow> ar_qe (dedup_mark i n a ! j) > ar_qb (dedup_mark i n a ! j) \<longrightarrow> 
        alnreg_key (a ! j) \<noteq> alnreg_key (a ! (j - 1))"
    proof (intro allI impI)
      fix j assume j: "j < n" "i \<le> j" "ar_qe (dedup_mark i n a ! j) > ar_qb (dedup_mark i n a ! j)"
      show "alnreg_key (a ! j) \<noteq> alnreg_key (a ! (j - 1))"
      proof (cases "j = i")
        case True
        have "dedup_mark i n a ! i = ?a' ! i" using IH(3) [of i] unf by simp
        with j(3) True have "ar_qe (?a' ! i) > ar_qb (?a' ! i)" by simp
        then have "\<not> (ar_score (a ! i) = ar_score (a ! (i - 1)) \<and> ar_rb (a ! i) = ar_rb (a ! (i - 1))
                 \<and> ar_qb (a ! i) = ar_qb (a ! (i - 1)))"
          using \<open>i < n\<close> 1(3) by (auto split: if_splits)
        then show ?thesis using True by (auto simp: alnreg_key_def)
      next
        case False
        then have "i + 1 \<le> j" using j by simp
        from IH(4) [OF j(1) this] j(3) unf
        have "alnreg_key (?a' ! j) \<noteq> alnreg_key (?a' ! (j - 1))" by simp
        moreover have "j - 1 < n" using j by simp
        ultimately show ?thesis using keys j(1) by simp
      qed
    qed
    show ?thesis using c1 c2 c3 c4 by blast
  qed
qed

lemma dedup_squeeze_take:
  "m \<le> i \<Longrightarrow> i \<le> n \<Longrightarrow> length a = n \<Longrightarrow> dedup_squeeze i m n a = (m', a') \<Longrightarrow>
   take m' a' = take m a @ filter (\<lambda>r. ar_qe r > ar_qb r) (drop i a)"
proof (induction i m n a arbitrary: m' a' rule: dedup_squeeze.induct)
  case (1 i m n a)
  show ?case
  proof (cases "i < n")
    case False
    then show ?thesis using 1(4-) by (simp add: dedup_squeeze.simps)
  next
    case True
    note lt = True
    have dr: "drop i a = a ! i # drop (i + 1) a"
      using lt 1(6) by (simp add: Cons_nth_drop_Suc)
    show ?thesis
    proof (cases "ar_qe (a ! i) > ar_qb (a ! i)")
      case False
      then have "dedup_squeeze (i + 1) m n a = (m', a')"
        using 1(7) lt by (subst (asm) dedup_squeeze.simps) simp
      from 1(3) [OF lt False _ _ _ this] 1(4-6) lt
      show ?thesis using dr False by simp
    next
      case keep: True
      show ?thesis
      proof (cases "m = i")
        case True
        then have "dedup_squeeze (i + 1) (m + 1) n a = (m', a')"
          using 1(7) lt keep by (subst (asm) dedup_squeeze.simps) simp
        from 1(2) [OF lt keep _ _ _ _ this] True 1(4-6) lt
        have "take m' a' = take (m + 1) a @ filter (\<lambda>r. ar_qe r > ar_qb r) (drop (i + 1) a)"
          by simp
        moreover have "take (m + 1) a = take m a @ [a ! i]"
          using True lt 1(6) by (simp add: take_Suc_conv_app_nth)
        ultimately show ?thesis using dr keep by simp
      next
        case False
        then have mi: "m < i" using 1(4) by simp
        have "dedup_squeeze (i + 1) (m + 1) n (a[m := a ! i]) = (m', a')"
          using 1(7) lt keep False by (subst (asm) dedup_squeeze.simps) simp
        from 1(1) [OF lt keep False _ _ _ this] mi 1(5,6) lt
        have "take m' a' = take (m + 1) (a[m := a ! i])
                 @ filter (\<lambda>r. ar_qe r > ar_qb r) (drop (i + 1) (a[m := a ! i]))"
          by simp
        moreover have "take (m + 1) (a[m := a ! i]) = take m a @ [a ! i]"
          using mi lt 1(6) by (simp add: take_Suc_conv_app_nth)
        moreover have "drop (i + 1) (a[m := a ! i]) = drop (i + 1) a"
          using mi by simp
        ultimately show ?thesis using dr keep by simp
      qed
    qed
  qed
qed

lemma strict_after_filter:
  fixes key :: "'a \<Rightarrow> 'k::linorder"
  assumes "sorted (map key (x # xs))"
    and "\<forall>j. Suc j < length (x # xs) \<longrightarrow> P ((x # xs) ! Suc j) \<longrightarrow> key ((x # xs) ! j) \<noteq> key ((x # xs) ! Suc j)"
  shows "sorted_wrt (<) (map key (x # filter P xs))"
  using assms
proof (induction xs arbitrary: x)
  case Nil
  then show ?case by simp
next
  case (Cons z zs)
  have sz: "sorted (map key (z # zs))" using Cons.prems(1) by simp
  have gz: "\<forall>j. Suc j < length (z # zs) \<longrightarrow> P ((z # zs) ! Suc j) \<longrightarrow> key ((z # zs) ! j) \<noteq> key ((z # zs) ! Suc j)"
  proof (intro allI impI)
    fix j assume "Suc j < length (z # zs)" "P ((z # zs) ! Suc j)"
    then show "key ((z # zs) ! j) \<noteq> key ((z # zs) ! Suc j)"
      using Cons.prems(2) [rule_format, of "Suc j"] by simp
  qed
  from Cons.IH [OF sz gz] have IH: "sorted_wrt (<) (map key (z # filter P zs))" .
  have xz: "key x \<le> key z" using Cons.prems(1) by simp
  show ?case
  proof (cases "P z")
    case True
    have "key x \<noteq> key z" using Cons.prems(2) [rule_format, of 0] True by simp
    with xz have "key x < key z" by simp
    then show ?thesis using IH True by (auto simp: less_trans)
  next
    case False
    have "\<forall>y \<in> set (filter P zs). key x < key y"
      using IH xz by auto
    then show ?thesis using IH False by auto
  qed
qed


lemma sorted_wrt_not_slt: "sorted_wrt (\<lambda>x y. \<not> alnreg_slt y x) xs \<longleftrightarrow> sorted (map alnreg_key xs)"
  by (simp add: sorted_wrt_map alnreg_slt_key not_less)

lemma sorted_wrt_slt: "sorted_wrt alnreg_slt xs \<longleftrightarrow> sorted_wrt (<) (map alnreg_key xs)"
proof -
  have "alnreg_slt = (\<lambda>x y. alnreg_key x < alnreg_key y)"
    by (intro ext) (rule alnreg_slt_key)
  then show ?thesis by (simp add: sorted_wrt_map)
qed

lemma sorted_wrt_short: "length xs \<le> 1 \<Longrightarrow> sorted_wrt R xs"
  by (cases xs) auto

lemma distinct_dedup_key: "distinct (map alnreg_key xs) \<Longrightarrow> distinct (map dedup_key xs)"
  by (induction xs) (auto simp: alnreg_key_eq [symmetric])

lemma dedup_survivors_strict:
  assumes n: "1 < n" and len: "length s = n" and srt: "sorted (map alnreg_key s)"
    and res: "dedup_squeeze 1 1 n (dedup_mark 1 n s) = (m, a')"
  shows "sorted_wrt (<) (map alnreg_key (take m a'))"
proof -
  let ?b = "dedup_mark 1 n s"
  let ?P = "\<lambda>r. ar_qe r > ar_qb r"
  from dedup_mark_inv [of 1 n s] n len
  have lb: "length ?b = n"
    and kb: "\<And>j. j < n \<Longrightarrow> alnreg_key (?b ! j) = alnreg_key (s ! j)"
    and mb: "\<And>j. j < n \<Longrightarrow> 1 \<le> j \<Longrightarrow> ?P (?b ! j) \<Longrightarrow> alnreg_key (s ! j) \<noteq> alnreg_key (s ! (j - 1))"
    by auto
  have keys: "map alnreg_key ?b = map alnreg_key s"
    using lb len kb by (auto intro!: nth_equalityI)
  from dedup_squeeze_take [OF _ _ lb res] n
  have tk: "take m a' = take 1 ?b @ filter ?P (drop 1 ?b)" by simp
  obtain x xs where b: "?b = x # xs" using lb n by (cases ?b) auto
  have tk': "take m a' = x # filter ?P xs" using tk b by simp
  have s1: "sorted (map alnreg_key (x # xs))" using srt keys b by simp
  have s2: "\<forall>j. Suc j < length (x # xs) \<longrightarrow> ?P ((x # xs) ! Suc j) \<longrightarrow>
               alnreg_key ((x # xs) ! j) \<noteq> alnreg_key ((x # xs) ! Suc j)"
  proof (intro allI impI)
    fix j assume j: "Suc j < length (x # xs)" "?P ((x # xs) ! Suc j)"
    then have jn: "Suc j < n" using b lb by simp
    from mb [OF jn] j(2) b have "alnreg_key (s ! Suc j) \<noteq> alnreg_key (s ! j)" by simp
    moreover have "alnreg_key (?b ! Suc j) = alnreg_key (s ! Suc j)" using kb jn by simp
    moreover have "alnreg_key (?b ! j) = alnreg_key (s ! j)" using kb jn by simp
    ultimately show "alnreg_key ((x # xs) ! j) \<noteq> alnreg_key ((x # xs) ! Suc j)"
      using b by metis
  qed
  from strict_after_filter [of alnreg_key x xs ?P, OF s1 s2] tk' show ?thesis by simp
qed

text \<open>
  Claim C6. After \<open>mem_sort_and_dedup\<close> has run on an array of \<open>n\<close> regions, no two of
  the \<open>m\<close> surviving regions \<open>a[0..m)\<close> share the triple \<open>(score, rb, qb)\<close>, and the
  survivors are sorted by score descending, ties broken by \<open>rb\<close> ascending, then \<open>qb\<close>
  ascending (no survivor may be swapped with a later one, and in fact each survivor
  strictly precedes the next). The sort is assumed to return the \<open>n\<close> regions ordered
  by \<open>alnreg_slt\<close>.
\<close>

theorem mem_sort_and_dedup_sorted_distinct:
  assumes len: "int (length a) = n"
    and srt_len: "length (ks_introsort a) = length a"
    and srt_sorted: "sorted_wrt (\<lambda>x y. \<not> alnreg_slt y x) (ks_introsort a)"
    and res: "mem_sort_and_dedup ks_introsort n a = (m, a')"
  shows "distinct (map dedup_key (take (nat m) a')) \<and>
         sorted_wrt (\<lambda>x y. \<not> alnreg_slt y x) (take (nat m) a') \<and>
         sorted_wrt alnreg_slt (take (nat m) a')"
proof -
  have strict: "sorted_wrt (<) (map alnreg_key (take (nat m) a'))"
  proof (cases "n \<le> 1")
    case True
    then have "m = n" "a' = a" using res by (auto simp: mem_sort_and_dedup_def)
    moreover have "length a \<le> 1" using True len by simp
    ultimately show ?thesis by (intro sorted_wrt_short) simp
  next
    case False
    then obtain m0 where sq: "dedup_squeeze 1 1 (nat n) (dedup_mark 1 (nat n) (ks_introsort a)) = (m0, a')"
      and m: "m = int m0"
      using res by (auto simp: mem_sort_and_dedup_def Let_def split: prod.splits)
    have "sorted_wrt (<) (map alnreg_key (take m0 a'))"
    proof (rule dedup_survivors_strict [OF _ _ _ sq])
      show "1 < nat n" using False by simp
      show "length (ks_introsort a) = nat n" using srt_len len by auto
      show "sorted (map alnreg_key (ks_introsort a))"
        using srt_sorted by (simp add: sorted_wrt_not_slt)
    qed
    then show ?thesis using m by simp
  qed
  then have sd: "sorted (map alnreg_key (take (nat m) a'))" "distinct (map alnreg_key (take (nat m) a'))"
    by (simp_all add: strict_sorted_iff)
  show ?thesis
    using strict sd distinct_dedup_key by (simp add: sorted_wrt_not_slt sorted_wrt_slt)
qed

lemma regions3_sorted:
  "ks_introsort_ars regions3 = [regions3 ! 1, regions3 ! 0, regions3 ! 2]"
  by (simp add: ks_introsort_ars_def regions3_def alnreg_key_def)

lemma regions3_result:
  "mem_sort_and_dedup ks_introsort_ars 3 regions3 =
    (2, [regions3 ! 1, regions3 ! 0, (regions3 ! 2)\<lparr>ar_qe := 0\<rparr>])"
  by (simp add: mem_sort_and_dedup_def regions3_sorted dedup_mark.simps dedup_squeeze.simps Let_def)
     (simp add: regions3_def)

theorem mem_sort_and_dedup_sorted_distinct_witness:
  "int (length regions3) = 3 \<and>
   length (ks_introsort_ars regions3) = length regions3 \<and>
   sorted_wrt (\<lambda>x y. \<not> alnreg_slt y x) (ks_introsort_ars regions3) \<and>
   mem_sort_and_dedup ks_introsort_ars 3 regions3
     = (2, [regions3 ! 1, regions3 ! 0, (regions3 ! 2)\<lparr>ar_qe := 0\<rparr>]) \<and>
   distinct (map dedup_key [regions3 ! 1, regions3 ! 0]) \<and>
   sorted_wrt alnreg_slt [regions3 ! 1, regions3 ! 0]"
proof -
  have h1: "int (length regions3) = 3" by (simp add: regions3_def)
  have h2: "length (ks_introsort_ars regions3) = length regions3"
    by (simp add: ks_introsort_ars_def)
  have h3: "sorted_wrt (\<lambda>x y. \<not> alnreg_slt y x) (ks_introsort_ars regions3)"
    unfolding regions3_sorted by (simp add: regions3_def alnreg_slt_def)
  from mem_sort_and_dedup_sorted_distinct [OF h1 h2 h3 regions3_result]
  show ?thesis using h1 h2 h3 regions3_result by simp
qed

section \<open>Properties of \<open>mem_mark_primary_se\<close>\<close>

declare mark_init.simps [simp del] mark_inner.simps [simp del] mark_outer.simps [simp del]


lemma mark_init_nth:
  "length (mark_init i n a) = length a \<and>
   (\<forall>j < length a. mark_init i n a ! j =
       (if i \<le> j \<and> j < n then (a ! j)\<lparr>ar_sub := 0, ar_secondary := -1\<rparr> else a ! j))"
proof (induction i n a rule: mark_init.induct)
  case (1 i n a)
  show ?case
  proof (cases "i < n")
    case False
    then show ?thesis by (simp add: mark_init.simps)
  next
    case True
    let ?a' = "a[i := (a ! i)\<lparr>ar_sub := 0, ar_secondary := -1\<rparr>]"
    have unf: "mark_init i n a = mark_init (i + 1) n ?a'"
      using True by (subst mark_init.simps) simp
    from 1 [OF True] have IH: "length (mark_init (i + 1) n ?a') = length a"
      "\<And>j. j < length a \<Longrightarrow> mark_init (i + 1) n ?a' ! j =
         (if i + 1 \<le> j \<and> j < n then (?a' ! j)\<lparr>ar_sub := 0, ar_secondary := -1\<rparr> else ?a' ! j)"
      by simp_all
    have "mark_init (i + 1) n ?a' ! j =
       (if i \<le> j \<and> j < n then (a ! j)\<lparr>ar_sub := 0, ar_secondary := -1\<rparr> else a ! j)"
      if "j < length a" for j
      using IH(2) [OF that] True that by (cases "j = i") (auto simp: nth_list_update)
    then show ?thesis unfolding unf using IH(1) by simp
  qed
qed

lemma map_secondary_update:
  "ar_secondary r = ar_secondary (a ! j) \<Longrightarrow> map ar_secondary (a[j := r]) = map ar_secondary a"
  by (cases "j < length a") (simp_all add: map_update list_update_same_conv list_update_beyond)

lemma mark_inner_secondary:
  "mark_inner opt tmp i k z a = (k', a') \<Longrightarrow> k \<le> length z \<Longrightarrow>
   k' \<le> length z \<and> map ar_secondary a' = map ar_secondary a"
proof (induction "length z - k" arbitrary: k rule: less_induct)
  case less
  show ?case
  proof (cases "k < length z")
    case False
    then show ?thesis using less.prems by (simp add: mark_inner.simps)
  next
    case True
    define j where "j = z ! k"
    define b_max where "b_max = (if ar_qb (a ! j) > ar_qb (a ! i) then ar_qb (a ! j) else ar_qb (a ! i))"
    define e_min where "e_min = (if ar_qe (a ! j) < ar_qe (a ! i) then ar_qe (a ! j) else ar_qe (a ! i))"
    define min_l where "min_l = (if ar_qe (a ! i) - ar_qb (a ! i) < ar_qe (a ! j) - ar_qb (a ! j)
                                  then ar_qe (a ! i) - ar_qb (a ! i)
                                  else ar_qe (a ! j) - ar_qb (a ! j))"
    define sig where "sig \<longleftrightarrow> e_min > b_max \<and> real_of_int (e_min - b_max) \<ge> real_of_int min_l * mask_level opt"
    define a1 where "a1 = (if ar_sub (a ! j) = 0 then a[j := (a ! j)\<lparr>ar_sub := ar_score (a ! i)\<rparr>] else a)"
    define a2 where "a2 = (if ar_score (a1 ! j) - ar_score (a1 ! i) \<le> tmp
                            then a1[j := (a1 ! j)\<lparr>ar_sub_n := ar_sub_n (a1 ! j) + 1\<rparr>] else a1)"
    have unf: "mark_inner opt tmp i k z a = (if sig then (k, a2) else mark_inner opt tmp i (k + 1) z a)"
      apply (subst mark_inner.simps)
      apply (simp only: Let_def)
      apply (simp only: j_def [symmetric])
      apply (simp only: b_max_def [symmetric] e_min_def [symmetric] min_l_def [symmetric]
          a1_def [symmetric])
      apply (simp only: a2_def [symmetric])
      apply (simp add: sig_def True)
      done
    have s1: "map ar_secondary a1 = map ar_secondary a"
      unfolding a1_def by (simp add: map_secondary_update)
    have s2: "map ar_secondary a2 = map ar_secondary a1"
      unfolding a2_def by (simp add: map_secondary_update)
    show ?thesis
    proof (cases sig)
      case True
      then show ?thesis using less.prems unf s1 s2 by simp
    next
      case False
      then have r: "mark_inner opt tmp i (k + 1) z a = (k', a')" using less.prems(1) unf by simp
      have "length z - (k + 1) < length z - k" using \<open>k < length z\<close> by simp
      from less.hyps [OF this r] \<open>k < length z\<close> show ?thesis by simp
    qed
  qed
qed

lemma primary_inv_final:
  assumes "primary_inv n n z (map ar_secondary a)" 
  shows "length a = n \<and> primary_ok a"
proof -
  from assms have len: "length a = n" and zlt: "\<forall>j \<in> set z. j < n" and z0: "0 \<in> set z"
    and prim: "\<forall>j < n. j \<in> set z \<longrightarrow> ar_secondary (a ! j) = -1"
    and sec: "\<forall>j < n. j \<notin> set z \<longrightarrow> 0 \<le> ar_secondary (a ! j) \<and> ar_secondary (a ! j) < int j
                 \<and> nat (ar_secondary (a ! j)) \<in> set z"
    by (auto simp: primary_inv_def)
  have "0 < n" using zlt z0 by auto
  then have a0: "ar_secondary (a ! 0) = -1" using prim z0 by simp
  have "ar_secondary (a ! i) < int i \<and> ar_secondary (a ! nat (ar_secondary (a ! i))) = -1"
    if "i < length a" "ar_secondary (a ! i) \<ge> 0" for i
  proof -
    have "i \<notin> set z" using prim that len by force
    with sec that len have s: "ar_secondary (a ! i) < int i" "nat (ar_secondary (a ! i)) \<in> set z"
      by auto
    then have "nat (ar_secondary (a ! i)) < n" using zlt by simp
    with s prim show ?thesis by simp
  qed
  then show ?thesis using len a0 by (simp add: primary_ok_def)
qed

lemma mark_outer_inv:
  "primary_inv n i z (map ar_secondary a) \<Longrightarrow> i \<le> n \<Longrightarrow>
   length (mark_outer opt tmp i n z a) = n \<and> primary_ok (mark_outer opt tmp i n z a)"
proof (induction opt tmp i n z a rule: mark_outer.induct)
  case (1 opt tmp i n z a)
  show ?case
  proof (cases "i < n")
    case False
    then have "i = n" using 1(4) by simp
    then show ?thesis using primary_inv_final 1(3) by (simp add: mark_outer.simps)
  next
    case True
    obtain k a1 where inner: "mark_inner opt tmp i 0 z a = (k, a1)" by force
    from mark_inner_secondary [OF inner]
    have k: "k \<le> length z" and sec1: "map ar_secondary a1 = map ar_secondary a" by simp_all
    have inv1: "primary_inv n i z (map ar_secondary a1)" using 1(3) sec1 by simp
    have len1: "length a1 = n" using inv1 by (simp add: primary_inv_def)
    show ?thesis
    proof (cases "k = length z")
      case full: True
      have unf: "mark_outer opt tmp i n z a = mark_outer opt tmp (i + 1) n (z @ [i]) a1"
        using True inner full by (subst mark_outer.simps) simp
      have "primary_inv n (i + 1) (z @ [i]) (map ar_secondary a1)"
        using inv1 True unfolding primary_inv_def
        by (auto simp: less_Suc_eq)
      from 1(1) [OF True inner [symmetric] full this] True
      show ?thesis unfolding unf by simp
    next
      case brk: False
      let ?a2 = "a1[i := (a1 ! i)\<lparr>ar_secondary := int (z ! k)\<rparr>]"
      have unf: "mark_outer opt tmp i n z a = mark_outer opt tmp (i + 1) n z ?a2"
        using True inner brk by (subst mark_outer.simps) simp
      have kz: "k < length z" using k brk by simp
      then have zk: "z ! k \<in> set z" by simp
      have ss2: "map ar_secondary ?a2 = (map ar_secondary a1)[i := int (z ! k)]"
        by (simp add: map_update)
      have "primary_inv n (i + 1) z ((map ar_secondary a1)[i := int (z ! k)])"
        using inv1 True zk unfolding primary_inv_def
        by (auto simp: less_Suc_eq nth_list_update)
      then have "primary_inv n (i + 1) z (map ar_secondary ?a2)" using ss2 by simp
      from 1(2) [OF True inner [symmetric] brk this] True
      show ?thesis unfolding unf by simp
    qed
  qed
qed

text \<open>
  Claim C10. After \<open>mem_mark_primary_se\<close> has run on a non-empty region array of length
  \<open>n\<close>, region 0 has \<open>secondary = -1\<close>, so a primary region exists; and every region \<open>i\<close>
  with \<open>secondary \<ge> 0\<close> names an earlier region (\<open>secondary < i\<close>) that itself has
  \<open>secondary = -1\<close>. (This holds for every array, sorted or not.)
\<close>

theorem mem_mark_primary_se_primary:
  assumes "int (length a) = n" and "0 < n"
  shows "length (mem_mark_primary_se opt n a) = length a \<and> primary_ok (mem_mark_primary_se opt n a)"
proof -
  let ?a0 = "mark_init 0 (nat n) a"
  have l0: "length ?a0 = nat n" and s0: "\<forall>j < nat n. ar_secondary (?a0 ! j) = -1"
    using mark_init_nth [of 0 "nat n" a] assms by auto
  have "primary_inv (nat n) 1 [0] (map ar_secondary ?a0)"
    using l0 s0 assms(2) by (auto simp: primary_inv_def)
  from mark_outer_inv [OF this] assms
  show ?thesis by (auto simp: mem_mark_primary_se_def Let_def)
qed


lemma regions_ranked_marked:
  "map ar_secondary (mem_mark_primary_se mem_opt_init 3 regions_ranked) = [-1, 0, -1]"
  by (simp add: mem_mark_primary_se_def regions_ranked_def mem_opt_init_def Let_def
      mark_init.simps mark_outer.simps mark_inner.simps)

theorem mem_mark_primary_se_primary_witness:
  "int (length regions_ranked) = 3 \<and>
   map ar_secondary (mem_mark_primary_se mem_opt_init 3 regions_ranked) = [-1, 0, -1] \<and>
   length (mem_mark_primary_se mem_opt_init 3 regions_ranked) = length regions_ranked \<and>
   primary_ok (mem_mark_primary_se mem_opt_init 3 regions_ranked)"
proof -
  have h: "int (length regions_ranked) = 3" by (simp add: regions_ranked_def)
  from mem_mark_primary_se_primary [OF h, of mem_opt_init] regions_ranked_marked h
  show ?thesis by simp
qed

section \<open>Properties of the chainer\<close>

text \<open>
  Claim C9. For a query shorter than \<open>min_seed_len\<close>, \<open>mem_chain\<close> returns the empty chain
  vector, whatever the FM-index collaborators \<open>bwt_smem1\<close> and \<open>bwt_sa\<close> are: they are not
  consulted.
\<close>

theorem mem_chain_short_query:
  "len < min_seed_len opt \<Longrightarrow> mem_chain opt bwt_smem1 bwt_sa len seq = Some []"
  by (simp add: mem_chain_def)

declare smem_skip.simps [simp del] insert_occs.simps [simp del]

lemma test_and_merge_wf:
  assumes wf: "chain_wf (opt_w opt) c"
    and le: "\<forall>s \<in> set (c_seeds c). s_qbeg s \<le> s_qbeg p"
  shows "chain_wf (opt_w opt) (snd (test_and_merge opt c p)) \<and>
         set (c_seeds (snd (test_and_merge opt c p))) \<subseteq> insert p (set (c_seeds c))"
proof -
  from wf have n: "c_n c = int (length (c_seeds c))" and ne: "c_seeds c \<noteq> []"
    and su: "successively (seeds_colinear (opt_w opt)) (c_seeds c)"
    by (simp_all add: chain_wf_def)
  have lst: "c_seeds c ! nat (c_n c - 1) = last (c_seeds c)"
  proof -
    have "nat (c_n c - 1) = length (c_seeds c) - 1" using n by simp
    then show ?thesis using ne by (simp add: last_conv_nth)
  qed
  have lq: "s_qbeg (last (c_seeds c)) \<le> s_qbeg p" using le ne by simp
  have grow: "chain_wf (opt_w opt) (c\<lparr>c_m := m', c_seeds := c_seeds c @ [p], c_n := c_n c + 1\<rparr>)"
    if "s_rbeg p - s_rbeg (last (c_seeds c)) \<ge> 0"
      "(s_qbeg p - s_qbeg (last (c_seeds c))) - (s_rbeg p - s_rbeg (last (c_seeds c))) \<le> opt_w opt"
      "(s_rbeg p - s_rbeg (last (c_seeds c))) - (s_qbeg p - s_qbeg (last (c_seeds c))) \<le> opt_w opt"
    for m'
  proof -
    have "seeds_colinear (opt_w opt) (last (c_seeds c)) p"
      using that lq by (simp add: seeds_colinear_def abs_le_iff)
    then show ?thesis
      using n ne su by (simp add: chain_wf_def successively_append_iff)
  qed
  show ?thesis
    unfolding test_and_merge_def Let_def lst
    using wf grow by (auto split: if_splits)
qed

lemma test_and_merge_pos: "c_pos (snd (test_and_merge opt c p)) = c_pos c"
  by (simp add: test_and_merge_def Let_def)

lemma kb_intervalp_lower_bound:
  "kb_intervalp_lower tree pos = Some l \<Longrightarrow> l < length tree"
proof -
  assume a: "kb_intervalp_lower tree pos = Some l"
  have "length (takeWhile (\<lambda>c. c_pos c \<le> pos) tree) \<le> length tree"
    by (rule length_takeWhile_le)
  moreover from a have "length (takeWhile (\<lambda>c. c_pos c \<le> pos) tree) \<noteq> 0"
    and "l = length (takeWhile (\<lambda>c. c_pos c \<le> pos) tree) - 1"
    by (auto simp: kb_intervalp_lower_def Let_def split: if_splits)
  ultimately show ?thesis by linarith
qed

lemma set_kb_putp: "set (kb_putp tree c) = insert c (set tree)"
proof -
  let ?P = "\<lambda>x. c_pos x \<le> c_pos c"
  have "set (kb_putp tree c) = insert c (set (takeWhile ?P tree) \<union> set (dropWhile ?P tree))"
    by (simp add: kb_putp_def)
  also have "set (takeWhile ?P tree) \<union> set (dropWhile ?P tree)
               = set (takeWhile ?P tree @ dropWhile ?P tree)"
    by (simp only: set_append)
  also have "\<dots> = set tree" by (simp only: takeWhile_dropWhile_id)
  finally show ?thesis .
qed

lemma chain_wf_single: "chain_wf w \<lparr>c_pos = pos, c_n = 1, c_m = 4, c_seeds = [s]\<rparr>"
  by (simp add: chain_wf_def)

lemma insert_occ_wf:
  assumes wf: "tree_wf (opt_w opt) tree"
    and le: "\<forall>q \<in> tree_qbegs tree. q \<le> s_qbeg s"
  shows "tree_wf (opt_w opt) (insert_occ opt s tree) \<and>
         tree_qbegs (insert_occ opt s tree) \<subseteq> insert (s_qbeg s) (tree_qbegs tree)"
proof -
  let ?new = "\<lparr>c_pos = s_rbeg s, c_n = 1, c_m = 4, c_seeds = [s]\<rparr>"
  have put: "tree_wf (opt_w opt) (kb_putp t ?new) \<and>
             tree_qbegs (kb_putp t ?new) \<subseteq> insert (s_qbeg s) (tree_qbegs tree)"
    if "tree_wf (opt_w opt) t" "tree_qbegs t \<subseteq> insert (s_qbeg s) (tree_qbegs tree)" for t
    using that by (auto simp: tree_wf_def tree_qbegs_def set_kb_putp chain_wf_single)
  have upd: "tree_wf (opt_w opt) (tree[l := snd (test_and_merge opt (tree ! l) s)]) \<and>
             tree_qbegs (tree[l := snd (test_and_merge opt (tree ! l) s)])
               \<subseteq> insert (s_qbeg s) (tree_qbegs tree)"
    if l: "l < length tree" for l
  proof -
    have mem: "tree ! l \<in> set tree" using l by simp
    then have cwf: "chain_wf (opt_w opt) (tree ! l)" using wf by (simp add: tree_wf_def)
    have cle: "\<forall>x \<in> set (c_seeds (tree ! l)). s_qbeg x \<le> s_qbeg s"
      using le mem by (auto simp: tree_qbegs_def)
    from test_and_merge_wf [OF cwf cle]
    have c': "chain_wf (opt_w opt) (snd (test_and_merge opt (tree ! l) s))"
      "set (c_seeds (snd (test_and_merge opt (tree ! l) s))) \<subseteq> insert s (set (c_seeds (tree ! l)))"
      by simp_all
    have sub: "set (tree[l := snd (test_and_merge opt (tree ! l) s)])
                 \<subseteq> insert (snd (test_and_merge opt (tree ! l) s)) (set tree)"
      by (rule set_update_subset_insert)
    have w: "tree_wf (opt_w opt) (tree[l := snd (test_and_merge opt (tree ! l) s)])"
      using sub c'(1) wf by (auto simp: tree_wf_def)
    have q: "tree_qbegs (tree[l := snd (test_and_merge opt (tree ! l) s)])
               \<subseteq> insert (s_qbeg s) (tree_qbegs tree)"
    proof
      fix v assume "v \<in> tree_qbegs (tree[l := snd (test_and_merge opt (tree ! l) s)])"
      then obtain c x where cx: "c \<in> set (tree[l := snd (test_and_merge opt (tree ! l) s)])"
        "x \<in> set (c_seeds c)" "v = s_qbeg x"
        by (auto simp: tree_qbegs_def)
      from cx(1) sub have "c = snd (test_and_merge opt (tree ! l) s) \<or> c \<in> set tree" by auto
      then show "v \<in> insert (s_qbeg s) (tree_qbegs tree)"
      proof
        assume "c = snd (test_and_merge opt (tree ! l) s)"
        with cx c'(2) have "x = s \<or> x \<in> set (c_seeds (tree ! l))" by auto
        then show ?thesis using cx(3) mem by (auto simp: tree_qbegs_def)
      next
        assume "c \<in> set tree"
        then show ?thesis using cx by (auto simp: tree_qbegs_def)
      qed
    qed
    show ?thesis using w q by simp
  qed
  have put0: "tree_wf (opt_w opt) (kb_putp tree ?new) \<and>
             tree_qbegs (kb_putp tree ?new) \<subseteq> insert (s_qbeg s) (tree_qbegs tree)"
    by (rule put [OF wf]) auto
  show ?thesis
  proof (cases "length tree \<noteq> 0")
    case False
    then show ?thesis using put0 by (simp add: insert_occ_def)
  next
    case ne: True
    show ?thesis
    proof (cases "kb_intervalp_lower tree (s_rbeg s)")
      case None
      then show ?thesis using put0 ne by (simp add: insert_occ_def)
    next
      case (Some l)
      from kb_intervalp_lower_bound [OF Some] have l: "l < length tree" .
      obtain ret c where tm: "test_and_merge opt (tree ! l) s = (ret, c)" by force
      from upd [OF l] tm have u: "tree_wf (opt_w opt) (tree[l := c])"
        "tree_qbegs (tree[l := c]) \<subseteq> insert (s_qbeg s) (tree_qbegs tree)" by simp_all
      show ?thesis
        using ne Some tm u put [OF u] by (simp add: insert_occ_def)
    qed
  qed
qed

lemma insert_occs_wf:
  "tree_wf (opt_w opt) tree \<Longrightarrow> \<forall>q \<in> tree_qbegs tree. q \<le> iv_qbeg p \<Longrightarrow>
   tree_wf (opt_w opt) (insert_occs opt bwt_sa p slen k tree) \<and>
   tree_qbegs (insert_occs opt bwt_sa p slen k tree) \<subseteq> insert (iv_qbeg p) (tree_qbegs tree)"
proof (induction opt bwt_sa p slen k tree rule: insert_occs.induct)
  case (1 opt bwt_sa p slen k tree)
  show ?case
  proof (cases "k < unat (iv_x2 p)")
    case False
    then show ?thesis using 1(2) by (subst insert_occs.simps, subst insert_occs.simps) auto
  next
    case True
    let ?s = "\<lparr>s_rbeg = sint (bwt_sa (iv_x0 p + of_nat k)), s_qbeg = iv_qbeg p, s_len = slen\<rparr>"
    let ?t = "insert_occ opt ?s tree"
    from insert_occ_wf [OF 1(2), of ?s] 1(3)
    have t: "tree_wf (opt_w opt) ?t" "tree_qbegs ?t \<subseteq> insert (iv_qbeg p) (tree_qbegs tree)"
      by simp_all
    then have "\<forall>q \<in> tree_qbegs ?t. q \<le> iv_qbeg p" using 1(3) by auto
    from 1(1) [OF True t(1) this] t(2)
    have "tree_wf (opt_w opt) (insert_occs opt bwt_sa p slen (k + 1) ?t) \<and>
          tree_qbegs (insert_occs opt bwt_sa p slen (k + 1) ?t) \<subseteq> insert (iv_qbeg p) (tree_qbegs tree)"
      by auto
    moreover have "insert_occs opt bwt_sa p slen k tree = insert_occs opt bwt_sa p slen (k + 1) ?t"
      using True by (subst insert_occs.simps) simp
    ultimately show ?thesis by simp
  qed
qed

lemma insert_batch_wf:
  "tree_wf (opt_w opt) tree \<Longrightarrow> sorted (map iv_qbeg ps) \<Longrightarrow>
   \<forall>q \<in> tree_qbegs tree. \<forall>p \<in> set ps. q \<le> iv_qbeg p \<Longrightarrow>
   tree_wf (opt_w opt) (insert_batch opt bwt_sa ps tree) \<and>
   tree_qbegs (insert_batch opt bwt_sa ps tree) \<subseteq> tree_qbegs tree \<union> iv_qbeg ` set ps"
proof (induction ps arbitrary: tree)
  case Nil
  then show ?case by simp
next
  case (Cons p ps)
  have srt: "sorted (map iv_qbeg ps)" and ple: "\<forall>p' \<in> set ps. iv_qbeg p \<le> iv_qbeg p'"
    using Cons.prems(2) by auto
  show ?case
  proof (cases "iv_slen p < min_seed_len opt \<or> iv_x2 p > word_of_int (max_occ opt)")
    case True
    from Cons.IH [OF Cons.prems(1) srt] Cons.prems(3)
    show ?thesis using True by (auto simp: Let_def)
  next
    case False
    let ?t = "insert_occs opt bwt_sa p (iv_slen p) 0 tree"
    from insert_occs_wf [OF Cons.prems(1), of p bwt_sa "iv_slen p" 0] Cons.prems(3)
    have t: "tree_wf (opt_w opt) ?t" "tree_qbegs ?t \<subseteq> insert (iv_qbeg p) (tree_qbegs tree)"
      by simp_all
    have "\<forall>q \<in> tree_qbegs ?t. \<forall>p' \<in> set ps. q \<le> iv_qbeg p'"
      using t(2) ple Cons.prems(3) by auto
    from Cons.IH [OF t(1) srt this] t(2)
    show ?thesis using False by (auto simp: Let_def)
  qed
qed

lemma smem_skip_ge: "start \<le> smem_skip query len start"
proof (induction query len start rule: smem_skip.induct)
  case (1 query len start)
  show ?case
  proof (cases "start < len \<and> query ! nat start > 3")
    case True
    with 1 show ?thesis by (subst smem_skip.simps) auto
  next
    case False
    then show ?thesis by (subst smem_skip.simps) auto
  qed
qed

lemma smem_skip_le: "start \<le> len \<Longrightarrow> smem_skip query len start \<le> len"
proof (induction query len start rule: smem_skip.induct)
  case (1 query len start)
  show ?case
  proof (cases "start < len \<and> query ! nat start > 3")
    case True
    with 1 show ?thesis by (subst smem_skip.simps) auto
  next
    case False
    then show ?thesis using 1(2) by (subst smem_skip.simps) auto
  qed
qed

lemma smem_next_Some:
  assumes "smem_next bwt_smem1 itr max_len min_iv = (Some a, itr')"
  shows "\<exists>x. itr_start itr \<le> x \<and> 0 \<le> x \<and> x < itr_len itr \<and>
             bwt_smem1 (itr_len itr) (itr_query itr) x max_len min_iv = (itr_start itr', a) \<and>
             itr_len itr' = itr_len itr \<and> itr_query itr' = itr_query itr"
proof -
  let ?x = "smem_skip (itr_query itr) (itr_len itr) (itr_start itr)"
  from assms have st: "0 \<le> itr_start itr" "itr_start itr < itr_len itr" and ne: "?x \<noteq> itr_len itr"
    by (auto simp: smem_next_def Let_def split: if_splits)
  have "itr_start itr \<le> ?x" by (rule smem_skip_ge)
  moreover have "?x \<le> itr_len itr" using st by (intro smem_skip_le) simp
  moreover have "bwt_smem1 (itr_len itr) (itr_query itr) ?x max_len min_iv = (itr_start itr', a)
      \<and> itr_len itr' = itr_len itr \<and> itr_query itr' = itr_query itr"
    using assms st ne by (auto simp: smem_next_def Let_def split: prod.splits)
  ultimately show ?thesis using st ne by (intro exI [of _ ?x]) auto
qed

lemma mem_insert_seed_wf:
  assumes res: "mem_insert_seed opt bwt_smem1 bwt_sa itr tree = Some chs"
  shows "smem_ordered bwt_smem1 opt (itr_len itr) (itr_query itr) \<longrightarrow>
         tree_wf (opt_w opt) tree \<longrightarrow>
         (\<forall>q \<in> tree_qbegs tree. \<forall>y. itr_start itr \<le> y \<and> y < itr_len itr \<longrightarrow>
            (\<forall>p \<in> set (snd (bwt_smem1 (itr_len itr) (itr_query itr) y (max_seed_len opt) (min_intv opt))).
               q \<le> iv_qbeg p)) \<longrightarrow>
         tree_wf (opt_w opt) chs"
proof (rule mem_insert_seed.raw_induct
    [OF _ res, where P = "\<lambda>opt bwt_smem1 bwt_sa itr tree chs.
         smem_ordered bwt_smem1 opt (itr_len itr) (itr_query itr) \<longrightarrow>
         tree_wf (opt_w opt) tree \<longrightarrow>
         (\<forall>q \<in> tree_qbegs tree. \<forall>y. itr_start itr \<le> y \<and> y < itr_len itr \<longrightarrow>
            (\<forall>p \<in> set (snd (bwt_smem1 (itr_len itr) (itr_query itr) y (max_seed_len opt) (min_intv opt))).
               q \<le> iv_qbeg p)) \<longrightarrow>
         tree_wf (opt_w opt) chs"])
  fix rec opt bwt_smem1 bwt_sa itr tree chs
  assume IH: "\<And>opt' f sa itr' tree' y. rec opt' f sa itr' tree' = Some y \<Longrightarrow>
         smem_ordered f opt' (itr_len itr') (itr_query itr') \<longrightarrow>
         tree_wf (opt_w opt') tree' \<longrightarrow>
         (\<forall>q \<in> tree_qbegs tree'. \<forall>ya. itr_start itr' \<le> ya \<and> ya < itr_len itr' \<longrightarrow>
            (\<forall>p \<in> set (snd (f (itr_len itr') (itr_query itr') ya (max_seed_len opt') (min_intv opt'))).
               q \<le> iv_qbeg p)) \<longrightarrow>
         tree_wf (opt_w opt') y"
    and step: "(case smem_next bwt_smem1 itr (max_seed_len opt) (min_intv opt) of
                  (None, itr) \<Rightarrow> Some tree
                | (Some a, itr) \<Rightarrow> rec opt bwt_smem1 bwt_sa itr (insert_batch opt bwt_sa a tree))
               = Some chs"
  let ?F = "\<lambda>y. bwt_smem1 (itr_len itr) (itr_query itr) y (max_seed_len opt) (min_intv opt)"
  show "smem_ordered bwt_smem1 opt (itr_len itr) (itr_query itr) \<longrightarrow>
         tree_wf (opt_w opt) tree \<longrightarrow>
         (\<forall>q \<in> tree_qbegs tree. \<forall>y. itr_start itr \<le> y \<and> y < itr_len itr \<longrightarrow>
            (\<forall>p \<in> set (snd (?F y)). q \<le> iv_qbeg p)) \<longrightarrow>
         tree_wf (opt_w opt) chs"
  proof (intro impI)
    assume ord: "smem_ordered bwt_smem1 opt (itr_len itr) (itr_query itr)"
      and wf: "tree_wf (opt_w opt) tree"
      and fut: "\<forall>q \<in> tree_qbegs tree. \<forall>y. itr_start itr \<le> y \<and> y < itr_len itr \<longrightarrow>
            (\<forall>p \<in> set (snd (?F y)). q \<le> iv_qbeg p)"
    obtain r itr' where nx: "smem_next bwt_smem1 itr (max_seed_len opt) (min_intv opt) = (r, itr')"
      by force
    show "tree_wf (opt_w opt) chs"
    proof (cases r)
      case None
      then show ?thesis using step nx wf by simp
    next
      case (Some a)
      let ?t = "insert_batch opt bwt_sa a tree"
      have rec: "rec opt bwt_smem1 bwt_sa itr' ?t = Some chs"
        using step nx Some by simp
      from smem_next_Some [OF nx [unfolded Some]]
      obtain x where x: "itr_start itr \<le> x" "0 \<le> x" "x < itr_len itr"
        "?F x = (itr_start itr', a)" "itr_len itr' = itr_len itr" "itr_query itr' = itr_query itr"
        by blast
      from ord x(2,3,4)
      have o1: "x \<le> itr_start itr'" and o2: "sorted (map iv_qbeg a)"
        and o3: "\<forall>y. itr_start itr' \<le> y \<and> y < itr_len itr \<longrightarrow>
                   (\<forall>p \<in> set a. \<forall>p' \<in> set (snd (?F y)). iv_qbeg p \<le> iv_qbeg p')"
        unfolding smem_ordered_def
        by (metis fst_conv, metis snd_conv, metis fst_conv snd_conv)
      have "\<forall>q \<in> tree_qbegs tree. \<forall>p \<in> set a. q \<le> iv_qbeg p"
        using fut x(1,3,4) by (metis snd_conv)
      from insert_batch_wf [OF wf o2 this, of bwt_sa]
      have t: "tree_wf (opt_w opt) ?t" "tree_qbegs ?t \<subseteq> tree_qbegs tree \<union> iv_qbeg ` set a"
        by simp_all
      have fut': "\<forall>q \<in> tree_qbegs ?t. \<forall>y. itr_start itr' \<le> y \<and> y < itr_len itr' \<longrightarrow>
            (\<forall>p \<in> set (snd (bwt_smem1 (itr_len itr') (itr_query itr') y (max_seed_len opt) (min_intv opt))).
               q \<le> iv_qbeg p)"
      proof (intro ballI allI impI)
        fix q y p
        assume q: "q \<in> tree_qbegs ?t" and y: "itr_start itr' \<le> y \<and> y < itr_len itr'"
          and p: "p \<in> set (snd (bwt_smem1 (itr_len itr') (itr_query itr') y (max_seed_len opt) (min_intv opt)))"
        from p x(5,6) have p': "p \<in> set (snd (?F y))" by simp
        from q t(2) have "q \<in> tree_qbegs tree \<or> q \<in> iv_qbeg ` set a" by auto
        then show "q \<le> iv_qbeg p"
        proof
          assume "q \<in> tree_qbegs tree"
          moreover have "itr_start itr \<le> y \<and> y < itr_len itr" using y x(1,5) o1 by simp
          ultimately show ?thesis using fut p' by blast
        next
          assume "q \<in> iv_qbeg ` set a"
          then show ?thesis using o3 y x(5) p' by auto
        qed
      qed
      from IH [OF rec] ord x(5,6) t(1) fut' show ?thesis by simp
    qed
  qed
qed

lemma mem_chain_wf:
  assumes "smem_ordered bwt_smem1 opt len seq"
    and "mem_chain opt bwt_smem1 bwt_sa len seq = Some chs"
  shows "tree_wf (opt_w opt) chs"
proof (cases "len < min_seed_len opt")
  case True
  then show ?thesis using assms(2) by (auto simp: mem_chain_def tree_wf_def)
next
  case False
  then have "mem_insert_seed opt bwt_smem1 bwt_sa \<lparr>itr_query = seq, itr_start = 0, itr_len = len\<rparr> []
               = Some chs"
    using assms(2) by (simp add: mem_chain_def)
  from mem_insert_seed_wf [OF this] assms(1)
  show ?thesis by (simp add: tree_wf_def tree_qbegs_def)
qed

text \<open>
  Whatever the collaborators return, the seeds of a chain do not decrease in \<open>rbeg\<close> and
  drift by at most \<open>w\<close>: these are the tests of \<open>test_and_merge\<close>.
\<close>

lemma test_and_merge_rwf:
  assumes wf: "chain_rwf (opt_w opt) c"
  shows "chain_rwf (opt_w opt) (snd (test_and_merge opt c p))"
proof -
  from wf have n: "c_n c = int (length (c_seeds c))" and ne: "c_seeds c \<noteq> []"
    and su: "successively (seeds_rdrift (opt_w opt)) (c_seeds c)"
    by (simp_all add: chain_rwf_def)
  have lst: "c_seeds c ! nat (c_n c - 1) = last (c_seeds c)"
  proof -
    have "nat (c_n c - 1) = length (c_seeds c) - 1" using n by simp
    then show ?thesis using ne by (simp add: last_conv_nth)
  qed
  have grow: "chain_rwf (opt_w opt) (c\<lparr>c_m := m', c_seeds := c_seeds c @ [p], c_n := c_n c + 1\<rparr>)"
    if "s_rbeg p - s_rbeg (last (c_seeds c)) \<ge> 0"
      "(s_qbeg p - s_qbeg (last (c_seeds c))) - (s_rbeg p - s_rbeg (last (c_seeds c))) \<le> opt_w opt"
      "(s_rbeg p - s_rbeg (last (c_seeds c))) - (s_qbeg p - s_qbeg (last (c_seeds c))) \<le> opt_w opt"
    for m'
  proof -
    have "seeds_rdrift (opt_w opt) (last (c_seeds c)) p"
      using that by (simp add: seeds_rdrift_def abs_le_iff)
    then show ?thesis
      using n ne su by (simp add: chain_rwf_def successively_append_iff)
  qed
  show ?thesis
    unfolding test_and_merge_def Let_def lst
    using wf grow by (auto split: if_splits)
qed

lemma insert_occ_rwf:
  assumes wf: "\<forall>c \<in> set tree. chain_rwf (opt_w opt) c"
  shows "\<forall>c \<in> set (insert_occ opt s tree). chain_rwf (opt_w opt) c"
proof -
  let ?new = "\<lparr>c_pos = s_rbeg s, c_n = 1, c_m = 4, c_seeds = [s]\<rparr>"
  have new: "chain_rwf (opt_w opt) ?new" by (simp add: chain_rwf_def)
  have put: "\<forall>c \<in> set (kb_putp t ?new). chain_rwf (opt_w opt) c"
    if "\<forall>c \<in> set t. chain_rwf (opt_w opt) c" for t
    using that new by (simp add: set_kb_putp)
  have upd: "\<forall>c \<in> set (tree[l := snd (test_and_merge opt (tree ! l) s)]). chain_rwf (opt_w opt) c"
    if l: "l < length tree" for l
  proof -
    have "chain_rwf (opt_w opt) (tree ! l)" using wf l by simp
    then have "chain_rwf (opt_w opt) (snd (test_and_merge opt (tree ! l) s))"
      by (rule test_and_merge_rwf)
    moreover have "set (tree[l := snd (test_and_merge opt (tree ! l) s)])
                 \<subseteq> insert (snd (test_and_merge opt (tree ! l) s)) (set tree)"
      by (rule set_update_subset_insert)
    ultimately show ?thesis using wf by auto
  qed
  show ?thesis
  proof (cases "length tree \<noteq> 0")
    case False
    then show ?thesis using put [OF wf] by (simp add: insert_occ_def)
  next
    case ne: True
    show ?thesis
    proof (cases "kb_intervalp_lower tree (s_rbeg s)")
      case None
      then show ?thesis using put [OF wf] ne by (simp add: insert_occ_def)
    next
      case (Some l)
      from kb_intervalp_lower_bound [OF Some] have l: "l < length tree" .
      obtain ret c where tm: "test_and_merge opt (tree ! l) s = (ret, c)" by force
      from upd [OF l] tm have u: "\<forall>x \<in> set (tree[l := c]). chain_rwf (opt_w opt) x" by simp
      show ?thesis
        using ne Some tm u put [OF u] by (simp add: insert_occ_def)
    qed
  qed
qed

lemma insert_occs_rwf:
  "\<forall>c \<in> set tree. chain_rwf (opt_w opt) c \<Longrightarrow>
   \<forall>c \<in> set (insert_occs opt bwt_sa p slen k tree). chain_rwf (opt_w opt) c"
proof (induction opt bwt_sa p slen k tree rule: insert_occs.induct)
  case (1 opt bwt_sa p slen k tree)
  show ?case
  proof (cases "k < unat (iv_x2 p)")
    case False
    then show ?thesis using 1(2) by (subst insert_occs.simps) simp
  next
    case True
    let ?s = "\<lparr>s_rbeg = sint (bwt_sa (iv_x0 p + of_nat k)), s_qbeg = iv_qbeg p, s_len = slen\<rparr>"
    from 1(1) [OF True insert_occ_rwf [OF 1(2), of ?s]]
    show ?thesis using True by (subst insert_occs.simps) simp
  qed
qed

lemma insert_batch_rwf:
  "\<forall>c \<in> set tree. chain_rwf (opt_w opt) c \<Longrightarrow>
   \<forall>c \<in> set (insert_batch opt bwt_sa ps tree). chain_rwf (opt_w opt) c"
proof (induction ps arbitrary: tree)
  case Nil
  then show ?case by simp
next
  case (Cons p ps)
  show ?case
  proof (cases "iv_slen p < min_seed_len opt \<or> iv_x2 p > word_of_int (max_occ opt)")
    case True
    with Cons.IH [OF Cons.prems] show ?thesis by (simp add: Let_def)
  next
    case False
    with Cons.IH [OF insert_occs_rwf [OF Cons.prems, of bwt_sa p "iv_slen p" 0]]
    show ?thesis by (simp add: Let_def)
  qed
qed

lemma mem_insert_seed_rwf:
  assumes res: "mem_insert_seed opt bwt_smem1 bwt_sa itr tree = Some chs"
  shows "(\<forall>c \<in> set tree. chain_rwf (opt_w opt) c) \<longrightarrow> (\<forall>c \<in> set chs. chain_rwf (opt_w opt) c)"
proof (rule mem_insert_seed.raw_induct
    [OF _ res, where P = "\<lambda>opt bwt_smem1 bwt_sa itr tree chs.
         (\<forall>c \<in> set tree. chain_rwf (opt_w opt) c) \<longrightarrow> (\<forall>c \<in> set chs. chain_rwf (opt_w opt) c)"])
  fix rec opt bwt_smem1 bwt_sa itr tree chs
  assume IH: "\<And>opt' f sa itr' tree' y. rec opt' f sa itr' tree' = Some y \<Longrightarrow>
         (\<forall>c \<in> set tree'. chain_rwf (opt_w opt') c) \<longrightarrow> (\<forall>c \<in> set y. chain_rwf (opt_w opt') c)"
    and step: "(case smem_next bwt_smem1 itr (max_seed_len opt) (min_intv opt) of
                  (None, itr) \<Rightarrow> Some tree
                | (Some a, itr) \<Rightarrow> rec opt bwt_smem1 bwt_sa itr (insert_batch opt bwt_sa a tree))
               = Some chs"
  show "(\<forall>c \<in> set tree. chain_rwf (opt_w opt) c) \<longrightarrow> (\<forall>c \<in> set chs. chain_rwf (opt_w opt) c)"
  proof
    assume wf: "\<forall>c \<in> set tree. chain_rwf (opt_w opt) c"
    obtain r itr' where nx: "smem_next bwt_smem1 itr (max_seed_len opt) (min_intv opt) = (r, itr')"
      by force
    show "\<forall>c \<in> set chs. chain_rwf (opt_w opt) c"
    proof (cases r)
      case None
      then show ?thesis using step nx wf by simp
    next
      case (Some a)
      then have "rec opt bwt_smem1 bwt_sa itr' (insert_batch opt bwt_sa a tree) = Some chs"
        using step nx by simp
      from IH [OF this] insert_batch_rwf [OF wf] show ?thesis by simp
    qed
  qed
qed

lemma mem_chain_rbeg_drift:
  assumes "mem_chain opt bwt_smem1 bwt_sa len seq = Some chs"
  shows "\<forall>c \<in> set chs. successively (seeds_rdrift (opt_w opt)) (take (nat (c_n c)) (c_seeds c))"
proof (cases "len < min_seed_len opt")
  case True
  then show ?thesis using assms by (auto simp: mem_chain_def)
next
  case False
  then have "mem_insert_seed opt bwt_smem1 bwt_sa \<lparr>itr_query = seq, itr_start = 0, itr_len = len\<rparr> []
               = Some chs"
    using assms by (simp add: mem_chain_def)
  from mem_insert_seed_rwf [OF this]
  show ?thesis by (auto simp: chain_rwf_def)
qed

text \<open>
  Claim C5. In every chain that \<open>mem_chain\<close> produces, the seeds are monotone
  non-decreasing in \<open>qbeg\<close> and in \<open>rbeg\<close>, and for two consecutive seeds the difference
  between the query gap and the reference gap is at most the band width \<open>w\<close> in absolute
  value. The SMEM collaborator is assumed to deliver its matches in the order of their
  query starts (\<open>smem_ordered\<close>).
\<close>

theorem mem_chain_colinear:
  assumes "smem_ordered bwt_smem1 opt len seq"
    and "mem_chain opt bwt_smem1 bwt_sa len seq = Some chs"
  shows "\<forall>c \<in> set chs. chain_colinear (opt_w opt) c"
  using mem_chain_wf [OF assms] by (auto simp: tree_wf_def chain_wf_def chain_colinear_def)

lemma smem1_two_ordered: "smem_ordered smem1_two mem_opt_init 25 q"
  by (simp add: smem_ordered_def smem1_two_def iv_qbeg_def)

lemma insert_batch_two:
  "insert_batch mem_opt_init sa_two
     [\<lparr>iv_x0 = 0, iv_x1 = 0, iv_x2 = 1, iv_info = 20\<rparr>,
      \<lparr>iv_x0 = 1, iv_x1 = 0, iv_x2 = 2, iv_info = 0x500000019\<rparr>] [] = chains_two"
  by (simp add: mem_opt_init_def sa_two_def chains_two_def iv_slen_def iv_qbeg_def insert_occs.simps
      insert_occ_def test_and_merge_def kb_putp_def kb_intervalp_lower_def Let_def)

lemma mem_chain_two:
  "mem_chain mem_opt_init smem1_two sa_two 25 (replicate 25 0) = Some chains_two"
proof -
  let ?itr = "\<lparr>itr_query = replicate 25 0, itr_start = 0, itr_len = 25\<rparr>"
  have n1: "smem_next smem1_two ?itr 32 10
              = (Some [\<lparr>iv_x0 = 0, iv_x1 = 0, iv_x2 = 1, iv_info = 20\<rparr>,
                       \<lparr>iv_x0 = 1, iv_x1 = 0, iv_x2 = 2, iv_info = 0x500000019\<rparr>],
                 ?itr\<lparr>itr_start := 25\<rparr>)"
    by (simp add: smem_next_def smem1_two_def smem_skip.simps)
  have n2: "smem_next smem1_two (?itr\<lparr>itr_start := 25\<rparr>) 32 10 = (None, ?itr\<lparr>itr_start := 25\<rparr>)"
    by (simp add: smem_next_def)
  have o: "max_seed_len mem_opt_init = 32" "min_intv mem_opt_init = 10" "min_seed_len mem_opt_init = 19"
    by (simp_all add: mem_opt_init_def)
  have "mem_insert_seed mem_opt_init smem1_two sa_two ?itr [] = Some chains_two"
    by (subst mem_insert_seed.simps, simp only: o n1 prod.case option.case,
        subst mem_insert_seed.simps, simp only: o n2 prod.case option.case insert_batch_two)
  then show ?thesis by (simp add: mem_chain_def o)
qed

theorem mem_chain_colinear_witness:
  "smem_ordered smem1_two mem_opt_init 25 (replicate 25 0) \<and>
   mem_chain mem_opt_init smem1_two sa_two 25 (replicate 25 0) = Some chains_two \<and>
   chain_colinear 100 (chains_two ! 0) \<and> chain_colinear 100 (chains_two ! 1)"
  using mem_chain_colinear [OF smem1_two_ordered mem_chain_two] smem1_two_ordered mem_chain_two
  by (simp add: chains_two_def mem_opt_init_def)

theorem mem_chain_short_query_witness:
  "(18::int) < min_seed_len mem_opt_init \<and>
   mem_chain mem_opt_init smem1_two sa_two 18 (replicate 18 0) = Some []"
  using mem_chain_short_query [of 18 mem_opt_init smem1_two sa_two "replicate 18 0"]
  by (simp add: mem_opt_init_def)

section \<open>Properties of \<open>mem_chain_flt\<close>\<close>

declare flt_inner.simps [simp del] flt_outer.simps [simp del] flt_mark.simps [simp del]
  flt_free.simps [simp del] flt_squeeze.simps [simp del]

lemma length_flt_negate [simp]: "length (flt_negate k chs) = length chs"
  by (simp add: flt_negate_def)

lemma flt_negate_nth:
  "j < length chs \<Longrightarrow>
   flt_negate k chs ! j = (if j = k \<and> c_n (chs ! j) > 0 then (chs ! j)\<lparr>c_n := - c_n (chs ! j)\<rparr> else chs ! j)"
  by (auto simp: flt_negate_def nth_list_update)

lemma fold_flt_negate:
  "length (fold flt_negate ks chs) = length chs \<and>
   (\<forall>j < length chs. fold flt_negate ks chs ! j =
      (if j \<in> set ks \<and> c_n (chs ! j) > 0 then (chs ! j)\<lparr>c_n := - c_n (chs ! j)\<rparr> else chs ! j))"
proof (induction ks arbitrary: chs)
  case Nil
  show ?case by simp
next
  case (Cons k ks)
  let ?c = "flt_negate k chs"
  from Cons [of ?c] have len: "length (fold flt_negate ks ?c) = length chs"
    and nth: "\<And>j. j < length chs \<Longrightarrow> fold flt_negate ks ?c ! j =
      (if j \<in> set ks \<and> c_n (?c ! j) > 0 then (?c ! j)\<lparr>c_n := - c_n (?c ! j)\<rparr> else ?c ! j)"
    by simp_all
  have "fold flt_negate (k # ks) chs ! j =
      (if j \<in> set (k # ks) \<and> c_n (chs ! j) > 0 then (chs ! j)\<lparr>c_n := - c_n (chs ! j)\<rparr> else chs ! j)"
    if j: "j < length chs" for j
    using nth [OF j] flt_negate_nth [OF j, of k] by auto
  then show ?case using len by simp
qed

lemma flt_mark_fold:
  "n \<le> length a \<Longrightarrow> flt_mark i n a chs = fold flt_negate (flt_marks (drop i (take n a))) chs"
proof (induction i n a chs rule: flt_mark.induct)
  case (1 i n a chs)
  show ?case
  proof (cases "i < n")
    case False
    then show ?thesis by (simp add: flt_mark.simps flt_marks_def)
  next
    case True
    then have "drop i (take n a) = a ! i # drop (i + 1) (take n a)"
      using 1(2) by (simp add: Cons_nth_drop_Suc [symmetric])
    then have m: "flt_marks (drop i (take n a))
        = fa_p (a ! i) # (case fa_p2 (a ! i) of None \<Rightarrow> [] | Some k \<Rightarrow> [k])
            @ flt_marks (drop (i + 1) (take n a))"
      by (simp add: flt_marks_def)
    show ?thesis
      using True 1(1) [OF True 1(2)]
      by (subst flt_mark.simps) (simp add: m Let_def split: option.splits)
  qed
qed

lemma flt_free_spec:
  "i \<le> n_chn \<Longrightarrow> length chs = n_chn \<Longrightarrow> flt_free i n_chn chs freed = (chs', freed') \<Longrightarrow>
   length chs' = n_chn \<and>
   (\<forall>k < n_chn. chs' ! k =
      (if k < i then chs ! k
       else if c_n (chs ! k) \<ge> 0 then (chs ! k)\<lparr>c_n := 0, c_m := 0\<rparr>
       else (chs ! k)\<lparr>c_n := - c_n (chs ! k)\<rparr>)) \<and>
   freed' = freed @ filter (\<lambda>k. c_n (chs ! k) \<ge> 0) [i..<n_chn]"
proof (induction i n_chn chs freed arbitrary: chs' freed' rule: flt_free.induct)
  case (1 i n_chn chs freed)
  show ?case
  proof (cases "i < n_chn")
    case False
    then show ?thesis using 1(3-) by (simp add: flt_free.simps)
  next
    case True
    note lt = True
    have upt: "[i..<n_chn] = i # [i + 1..<n_chn]" using lt by (simp add: upt_conv_Cons)
    show ?thesis
    proof (cases "c_n (chs ! i) \<ge> 0")
      case True
      let ?c = "chs[i := (chs ! i)\<lparr>c_n := 0, c_m := 0\<rparr>]"
      have r: "flt_free (i + 1) n_chn ?c (freed @ [i]) = (chs', freed')"
        using 1(5) lt True by (subst (asm) flt_free.simps) simp
      from 1(1) [OF lt True _ _ r] lt 1(4)
      have IH: "length chs' = n_chn"
        "\<And>k. k < n_chn \<Longrightarrow> chs' ! k =
          (if k < i + 1 then ?c ! k
           else if c_n (?c ! k) \<ge> 0 then (?c ! k)\<lparr>c_n := 0, c_m := 0\<rparr>
           else (?c ! k)\<lparr>c_n := - c_n (?c ! k)\<rparr>)"
        "freed' = (freed @ [i]) @ filter (\<lambda>k. c_n (?c ! k) \<ge> 0) [i + 1..<n_chn]"
        by simp_all
      have f: "filter (\<lambda>k. c_n (?c ! k) \<ge> 0) [i + 1..<n_chn] = filter (\<lambda>k. c_n (chs ! k) \<ge> 0) [i + 1..<n_chn]"
        by (rule filter_cong) auto
      have "chs' ! k =
          (if k < i then chs ! k
           else if c_n (chs ! k) \<ge> 0 then (chs ! k)\<lparr>c_n := 0, c_m := 0\<rparr>
           else (chs ! k)\<lparr>c_n := - c_n (chs ! k)\<rparr>)" if "k < n_chn" for k
        using IH(2) [OF that] True that 1(4) by (cases "k = i") (auto simp: nth_list_update)
      then show ?thesis using IH(1,3) f upt True by simp
    next
      case False
      let ?c = "chs[i := (chs ! i)\<lparr>c_n := - c_n (chs ! i)\<rparr>]"
      have r: "flt_free (i + 1) n_chn ?c freed = (chs', freed')"
        using 1(5) lt False by (subst (asm) flt_free.simps) simp
      from 1(2) [OF lt False _ _ r] lt 1(4)
      have IH: "length chs' = n_chn"
        "\<And>k. k < n_chn \<Longrightarrow> chs' ! k =
          (if k < i + 1 then ?c ! k
           else if c_n (?c ! k) \<ge> 0 then (?c ! k)\<lparr>c_n := 0, c_m := 0\<rparr>
           else (?c ! k)\<lparr>c_n := - c_n (?c ! k)\<rparr>)"
        "freed' = freed @ filter (\<lambda>k. c_n (?c ! k) \<ge> 0) [i + 1..<n_chn]"
        by simp_all
      have f: "filter (\<lambda>k. c_n (?c ! k) \<ge> 0) [i + 1..<n_chn] = filter (\<lambda>k. c_n (chs ! k) \<ge> 0) [i + 1..<n_chn]"
        by (rule filter_cong) auto
      have "chs' ! k =
          (if k < i then chs ! k
           else if c_n (chs ! k) \<ge> 0 then (chs ! k)\<lparr>c_n := 0, c_m := 0\<rparr>
           else (chs ! k)\<lparr>c_n := - c_n (chs ! k)\<rparr>)" if "k < n_chn" for k
        using IH(2) [OF that] False that 1(4) by (cases "k = i") (auto simp: nth_list_update)
      then show ?thesis using IH(1,3) f upt False by simp
    qed
  qed
qed

lemma flt_squeeze_take:
  "n \<le> i \<Longrightarrow> i \<le> n_chn \<Longrightarrow> length chs = n_chn \<Longrightarrow> flt_squeeze i n n_chn chs = (n', chs') \<Longrightarrow>
   take n' chs' = take n chs @ filter (\<lambda>c. c_n c > 0) (drop i chs)"
proof (induction i n n_chn chs arbitrary: n' chs' rule: flt_squeeze.induct)
  case (1 i n n_chn chs)
  show ?case
  proof (cases "i < n_chn")
    case False
    then show ?thesis using 1(4-) by (simp add: flt_squeeze.simps)
  next
    case True
    note lt = True
    have dr: "drop i chs = chs ! i # drop (i + 1) chs"
      using lt 1(6) by (simp add: Cons_nth_drop_Suc)
    show ?thesis
    proof (cases "c_n (chs ! i) > 0")
      case False
      then have "flt_squeeze (i + 1) n n_chn chs = (n', chs')"
        using 1(7) lt by (subst (asm) flt_squeeze.simps) simp
      from 1(3) [OF lt False _ _ _ this] 1(4-6) lt
      show ?thesis using dr False by simp
    next
      case keep: True
      show ?thesis
      proof (cases "n = i")
        case True
        then have "flt_squeeze (i + 1) (n + 1) n_chn chs = (n', chs')"
          using 1(7) lt keep by (subst (asm) flt_squeeze.simps) simp
        from 1(2) [OF lt keep _ _ _ _ this] True 1(4-6) lt
        have "take n' chs' = take (n + 1) chs @ filter (\<lambda>c. c_n c > 0) (drop (i + 1) chs)"
          by simp
        moreover have "take (n + 1) chs = take n chs @ [chs ! i]"
          using True lt 1(6) by (simp add: take_Suc_conv_app_nth)
        ultimately show ?thesis using dr keep by simp
      next
        case False
        then have ni: "n < i" using 1(4) by simp
        have "flt_squeeze (i + 1) (n + 1) n_chn (chs[n := chs ! i]) = (n', chs')"
          using 1(7) lt keep False by (subst (asm) flt_squeeze.simps) simp
        from 1(1) [OF lt keep False _ _ _ this] ni 1(5,6) lt
        have "take n' chs' = take (n + 1) (chs[n := chs ! i])
                 @ filter (\<lambda>c. c_n c > 0) (drop (i + 1) (chs[n := chs ! i]))"
          by simp
        moreover have "take (n + 1) (chs[n := chs ! i]) = take n chs @ [chs ! i]"
          using ni lt 1(6) by (simp add: take_Suc_conv_app_nth)
        moreover have "drop (i + 1) (chs[n := chs ! i]) = drop (i + 1) chs"
          using ni by simp
        ultimately show ?thesis using dr keep by simp
      qed
    qed
  qed
qed

lemma flt_mark_free_squeeze:
  assumes len: "length chs = N" and pos: "\<forall>c \<in> set chs. 0 < c_n c"
    and fr: "flt_free 0 N (fold flt_negate ks chs) [] = (chs_f, freed)"
    and sq: "flt_squeeze 0 0 N chs_f = (n', chs')"
  shows "take n' chs' = map (\<lambda>k. chs ! k) (filter (\<lambda>k. k \<in> set ks) [0..<N]) \<and>
         freed = filter (\<lambda>k. k \<notin> set ks) [0..<N]"
proof -
  let ?m = "fold flt_negate ks chs"
  have p: "\<And>k. k < N \<Longrightarrow> 0 < c_n (chs ! k)" using pos len by simp
  from fold_flt_negate [of ks chs] len p
  have lm: "length ?m = N"
    and m: "\<And>k. k < N \<Longrightarrow> ?m ! k = (if k \<in> set ks then (chs ! k)\<lparr>c_n := - c_n (chs ! k)\<rparr> else chs ! k)"
    by simp_all
  from flt_free_spec [OF _ lm fr]
  have lf: "length chs_f = N"
    and f: "\<And>k. k < N \<Longrightarrow> chs_f ! k =
       (if c_n (?m ! k) \<ge> 0 then (?m ! k)\<lparr>c_n := 0, c_m := 0\<rparr> else (?m ! k)\<lparr>c_n := - c_n (?m ! k)\<rparr>)"
    and fd: "freed = filter (\<lambda>k. c_n (?m ! k) \<ge> 0) [0..<N]"
    by simp_all
  have f': "chs_f ! k = (if k \<in> set ks then chs ! k else (chs ! k)\<lparr>c_n := 0, c_m := 0\<rparr>)"
    if "k < N" for k
    using f [OF that] m [OF that] p [OF that] by auto
  have mk: "c_n (?m ! k) \<ge> 0 \<longleftrightarrow> k \<notin> set ks" if "k < N" for k
    using m [OF that] p [OF that] by auto
  have freed: "freed = filter (\<lambda>k. k \<notin> set ks) [0..<N]"
    unfolding fd using mk by (intro filter_cong) auto
  from flt_squeeze_take [OF _ _ lf sq]
  have "take n' chs' = filter (\<lambda>c. c_n c > 0) chs_f" by simp
  also have "\<dots> = filter (\<lambda>c. c_n c > 0) (map (\<lambda>k. chs_f ! k) [0..<N])"
    by (subst map_nth [of chs_f, symmetric], simp only: lf)
  also have "filter (\<lambda>c. c_n c > 0) (map (\<lambda>k. chs_f ! k) [0..<N])
      = map (\<lambda>k. chs_f ! k) (filter (\<lambda>k. c_n (chs_f ! k) > 0) [0..<N])"
    by (simp add: filter_map o_def)
  also have "filter (\<lambda>k. c_n (chs_f ! k) > 0) [0..<N] = filter (\<lambda>k. k \<in> set ks) [0..<N]"
  proof (intro filter_cong refl)
    fix k assume "k \<in> set [0..<N]"
    then have k: "k < N" by simp
    show "(c_n (chs_f ! k) > 0) = (k \<in> set ks)"
      using f' [OF k] p [OF k] by auto
  qed
  also have "map (\<lambda>k. chs_f ! k) (filter (\<lambda>k. k \<in> set ks) [0..<N])
      = map (\<lambda>k. chs ! k) (filter (\<lambda>k. k \<in> set ks) [0..<N])"
    using f' by (intro map_cong) auto
  finally show ?thesis using freed by simp
qed

lemma flt_rel_refl: "flt_rel v a a"
  by (simp add: flt_rel_def)

lemma flt_rel_trans: "flt_rel v a b \<Longrightarrow> flt_rel v b c \<Longrightarrow> flt_rel v a c"
  unfolding flt_rel_def by (metis (no_types, lifting))

lemma flt_rel_p2:
  "flt_rel v a (if fa_p2 (a ! j) = None then a[j := (a ! j)\<lparr>fa_p2 := Some v\<rparr>] else a)"
proof (cases "j < length a")
  case True
  then show ?thesis
    by (auto simp: flt_rel_def map_update list_update_same_conv nth_list_update)
next
  case False
  then show ?thesis by (simp add: flt_rel_def list_update_beyond)
qed

lemma fa_p_p2_update:
  "fa_p ((if fa_p2 (a ! j) = None then a[j := (a ! j)\<lparr>fa_p2 := Some v\<rparr>] else a) ! i) = fa_p (a ! i)"
  by (cases "j < length a"; cases "i = j") (simp_all add: list_update_beyond)

lemma flt_inner_inv:
  "flt_inner opt i j n a = (j', a') \<Longrightarrow> flt_rel (fa_p (a ! i)) a a' \<and> (j \<le> n \<longrightarrow> j' \<le> n)"
proof (induction "n - j" arbitrary: j a rule: less_induct)
  case less
  show ?case
  proof (cases "j < n")
    case False
    then show ?thesis using less.prems by (simp add: flt_inner.simps flt_rel_refl)
  next
    case True
    let ?a1 = "(if fa_p2 (a ! j) = None then a[j := (a ! j)\<lparr>fa_p2 := Some (fa_p (a ! i))\<rparr>] else a)"
    have m: "n - (j + 1) < n - j" using True by simp
    have r1: "flt_rel (fa_p (a ! i)) a ?a1" by (rule flt_rel_p2)
    have p1: "fa_p (?a1 ! i) = fa_p (a ! i)" by (rule fa_p_p2_update)
    define b_max where "b_max = (if fa_beg (a ! j) > fa_beg (a ! i) then fa_beg (a ! j) else fa_beg (a ! i))"
    define e_min where "e_min = (if fa_end (a ! j) < fa_end (a ! i) then fa_end (a ! j) else fa_end (a ! i))"
    define min_l where "min_l = (if fa_end (a ! i) - fa_beg (a ! i) < fa_end (a ! j) - fa_beg (a ! j)
                                  then fa_end (a ! i) - fa_beg (a ! i)
                                  else fa_end (a ! j) - fa_beg (a ! j))"
    define sig where "sig \<longleftrightarrow> e_min > b_max \<and> real_of_int (e_min - b_max) \<ge> real_of_int min_l * mask_level opt"
    define rej where "rej \<longleftrightarrow> real_of_int (fa_w (?a1 ! i)) < real_of_int (fa_w (?a1 ! j)) * chain_drop_ratio opt
                                    \<and> fa_w (?a1 ! j) - fa_w (?a1 ! i) \<ge> 2 * min_seed_len opt"
    have unf: "flt_inner opt i j n a =
        (if sig then (if rej then (j, ?a1) else flt_inner opt i (j + 1) n ?a1)
         else flt_inner opt i (j + 1) n a)"
      apply (subst flt_inner.simps)
      apply (simp only: Let_def)
      apply (simp only: b_max_def [symmetric] e_min_def [symmetric] min_l_def [symmetric])
      apply (simp add: sig_def rej_def True)
      done
    consider (A) "j' = j" "a' = ?a1"
      | (B) "flt_inner opt i (j + 1) n ?a1 = (j', a')"
      | (C) "flt_inner opt i (j + 1) n a = (j', a')"
      using less.prems unfolding unf by (cases sig; cases rej) simp_all
    then show ?thesis
    proof cases
      case A
      then show ?thesis using r1 True by simp
    next
      case B
      from less.hyps [OF m B] have r2: "flt_rel (fa_p (?a1 ! i)) ?a1 a'" and le: "j + 1 \<le> n \<longrightarrow> j' \<le> n"
        by simp_all
      from r2 have "flt_rel (fa_p (a ! i)) ?a1 a'" unfolding p1 .
      from flt_rel_trans [OF r1 this] le True show ?thesis by simp
    next
      case C
      from less.hyps [OF m C] show ?thesis using True by simp
    qed
  qed
qed

lemma flt_outer_inv:
  "flt_outer opt i n N a = (n', a') \<Longrightarrow> length a = N \<Longrightarrow> n \<le> i \<Longrightarrow> i \<le> N \<Longrightarrow>
   \<forall>k. i \<le> k \<and> k < N \<longrightarrow> fa_p (a ! k) = k \<Longrightarrow>
   \<forall>k < n. fa_p (a ! k) < i \<Longrightarrow>
   sorted_wrt (<) (map fa_p (take n a)) \<Longrightarrow>
   \<forall>k < N. \<forall>v. fa_p2 (a ! k) = Some v \<longrightarrow> v < N \<Longrightarrow>
   n' \<le> N \<and> length a' = N \<and> (\<forall>k < n'. fa_p (a' ! k) < N) \<and>
   sorted_wrt (<) (map fa_p (take n' a')) \<and>
   (\<forall>k < N. \<forall>v. fa_p2 (a' ! k) = Some v \<longrightarrow> v < N)"
proof (induction "N - i" arbitrary: i n a rule: less_induct)
  case less
  note len = less.prems(2) and ni = less.prems(3) and iN = less.prems(4)
    and idp = less.prems(5) and low = less.prems(6) and srt = less.prems(7) and rng = less.prems(8)
  show ?case
  proof (cases "i < N")
    case False
    then have "n' = n" "a' = a" "i = N" using less.prems(1) iN by (simp_all add: flt_outer.simps)
    then show ?thesis using len ni low srt rng by simp
  next
    case True
    obtain j b where inner: "flt_inner opt i 0 n a = (j, b)" by force
    from flt_inner_inv [OF inner] idp True
    have rel: "flt_rel i a b" by simp
    then have lb: "length b = N" and pb: "map fa_p b = map fa_p a"
      and p2b: "\<forall>k < N. fa_p2 (b ! k) = fa_p2 (a ! k) \<or> fa_p2 (b ! k) = Some i"
      using len by (simp_all add: flt_rel_def)
    have pbn: "fa_p (b ! k) = fa_p (a ! k)" if "k < N" for k
    proof -
      have "map fa_p b ! k = map fa_p a ! k" using pb by simp
      then show ?thesis using that len lb by simp
    qed
    have rngb: "\<forall>k < N. \<forall>v. fa_p2 (b ! k) = Some v \<longrightarrow> v < N"
      using p2b rng True by (metis option.inject)
    have tb: "map fa_p (take n b) = map fa_p (take n a)"
      using pb by (simp add: take_map [symmetric])
    have m: "N - (i + 1) < N - i" using True by simp
    show ?thesis
    proof (cases "j = n")
      case acc: True
      let ?c = "b[n := b ! i]"
      have nN: "n < N" using ni True by simp
      have rec: "flt_outer opt (i + 1) (n + 1) N ?c = (n', a')"
        using less.prems(1) True inner acc by (subst (asm) flt_outer.simps) simp
      have c1: "length ?c = N" using lb by simp
      have c2: "\<forall>k. i + 1 \<le> k \<and> k < N \<longrightarrow> fa_p (?c ! k) = k"
        using idp pbn ni by (auto simp: nth_list_update)
      have c3: "\<forall>k < n + 1. fa_p (?c ! k) < i + 1"
      proof (intro allI impI)
        fix k assume k: "k < n + 1"
        show "fa_p (?c ! k) < i + 1"
        proof (cases "k = n")
          case True
          then have "fa_p (?c ! k) = fa_p (b ! i)" using nN lb by simp
          also have "\<dots> = i" using pbn [OF \<open>i < N\<close>] idp \<open>i < N\<close> by simp
          finally show ?thesis by simp
        next
          case False
          then have kn: "k < n" using k by simp
          then have "fa_p (?c ! k) = fa_p (a ! k)" using False pbn nN by simp
          then show ?thesis using low kn by (simp add: less_Suc_eq)
        qed
      qed
      have tk: "take (n + 1) ?c = take n b @ [b ! i]"
        using nN lb by (simp add: take_Suc_conv_app_nth)
      have bi: "fa_p (b ! i) = i" using pbn [OF True] idp True by simp
      have "\<forall>x \<in> set (map fa_p (take n a)). x < i"
      proof
        fix x assume "x \<in> set (map fa_p (take n a))"
        then obtain k where "k < n" "x = fa_p (a ! k)"
          using nN len by (auto simp: in_set_conv_nth)
        then show "x < i" using low by simp
      qed
      then have c4: "sorted_wrt (<) (map fa_p (take (n + 1) ?c))"
        using srt tb bi unfolding tk by (simp add: sorted_wrt_append)
      have c5: "\<forall>k < N. \<forall>v. fa_p2 (?c ! k) = Some v \<longrightarrow> v < N"
      proof (intro allI impI)
        fix k v assume k: "k < N" and v: "fa_p2 (?c ! k) = Some v"
        have "?c ! k = b ! i \<or> ?c ! k = b ! k" using nN lb by (cases "k = n") simp_all
        then show "v < N" using v rngb True k by auto
      qed
      from less.hyps [OF m rec c1 _ _ c2 c3 c4 c5] ni True
      show ?thesis by simp
    next
      case rej: False
      have rec: "flt_outer opt (i + 1) n N b = (n', a')"
        using less.prems(1) True inner rej by (subst (asm) flt_outer.simps) simp
      have c2: "\<forall>k. i + 1 \<le> k \<and> k < N \<longrightarrow> fa_p (b ! k) = k"
        using idp pbn by auto
      have c3: "\<forall>k < n. fa_p (b ! k) < i + 1"
        using low pbn ni True by (auto simp: less_Suc_eq)
      have c4: "sorted_wrt (<) (map fa_p (take n b))" using srt tb by simp
      from less.hyps [OF m rec lb _ _ c2 c3 c4 rngb] ni True
      show ?thesis by simp
    qed
  qed
qed

lemma set_flt_marks:
  "set (flt_marks xs) =
     set (map fa_p xs) \<union> set (concat (map (\<lambda>x. case fa_p2 x of None \<Rightarrow> [] | Some k \<Rightarrow> [k]) xs))"
  by (induction xs) (auto simp: flt_marks_def split: option.splits)

lemma flt_sorted_facts:
  assumes len: "int (length chs) = n_chn"
    and pos: "\<forall>c \<in> set chs. 0 < c_n c"
    and perm: "mset (ks_introsort (flt_aux_all n_chn chs)) = mset (flt_aux_all n_chn chs)"
  shows "length (fst (flt_sorted ks_introsort n_chn chs)) = length chs"
    and "\<forall>c \<in> set (fst (flt_sorted ks_introsort n_chn chs)). 0 < c_n c"
    and "length (snd (flt_sorted ks_introsort n_chn chs)) = length chs"
    and "\<forall>k < length chs. fa_p (snd (flt_sorted ks_introsort n_chn chs) ! k) = k
            \<and> fa_p2 (snd (flt_sorted ks_introsort n_chn chs) ! k) = None"
proof -
  let ?a0 = "flt_aux_all n_chn chs"
  let ?s = "ks_introsort ?a0"
  have N: "nat n_chn = length chs" using len by auto
  have l0: "length ?a0 = length chs" by (simp add: flt_aux_all_def N)
  have a0: "\<forall>x \<in> set ?a0. fa_p x < length chs \<and> fa_p2 x = None"
    by (auto simp: flt_aux_all_def N flt_aux_init_def Let_def)
  have ls: "length ?s = length chs" using perm l0 by (metis size_mset)
  have ss: "set ?s = set ?a0" using perm by (rule mset_eq_setD)
  show "length (fst (flt_sorted ks_introsort n_chn chs)) = length chs"
    by (simp add: flt_sorted_def flt_reorder_def ls)
  show "length (snd (flt_sorted ks_introsort n_chn chs)) = length chs"
    by (simp add: flt_sorted_def flt_reorder_def ls)
  show "\<forall>c \<in> set (fst (flt_sorted ks_introsort n_chn chs)). 0 < c_n c"
  proof
    fix c assume "c \<in> set (fst (flt_sorted ks_introsort n_chn chs))"
    then obtain x where x: "x \<in> set ?s" "c = chs ! fa_p x"
      by (auto simp: flt_sorted_def flt_reorder_def)
    then have "fa_p x < length chs" using ss a0 by auto
    then show "0 < c_n c" using pos x(2) by simp
  qed
  show "\<forall>k < length chs. fa_p (snd (flt_sorted ks_introsort n_chn chs) ! k) = k
            \<and> fa_p2 (snd (flt_sorted ks_introsort n_chn chs) ! k) = None"
  proof (intro allI impI)
    fix k assume k: "k < length chs"
    then have "?s ! k \<in> set ?s" using ls by simp
    then have "fa_p2 (?s ! k) = None" using ss a0 by auto
    then show "fa_p (snd (flt_sorted ks_introsort n_chn chs) ! k) = k
            \<and> fa_p2 (snd (flt_sorted ks_introsort n_chn chs) ! k) = None"
      using k ls by (simp add: flt_sorted_def flt_reorder_def)
  qed
qed

lemma mem_chain_flt_kept_many:
  assumes len: "int (length chs) = n_chn" and n: "1 < n_chn"
    and pos: "\<forall>c \<in> set chs. 0 < c_n c"
    and perm: "mset (ks_introsort (flt_aux_all n_chn chs)) = mset (flt_aux_all n_chn chs)"
  shows "take (nat (fr_n (mem_chain_flt ks_introsort opt n_chn chs)))
              (fr_chains (mem_chain_flt ks_introsort opt n_chn chs))
           = map (\<lambda>k. fst (flt_sorted ks_introsort n_chn chs) ! k)
               (filter (\<lambda>k. k \<in> set (flt_accepted ks_introsort opt n_chn chs)
                              \<union> set (flt_partners ks_introsort opt n_chn chs))
                  [0..<length chs]) \<and>
         fr_freed (mem_chain_flt ks_introsort opt n_chn chs)
           = filter (\<lambda>k. k \<notin> set (flt_accepted ks_introsort opt n_chn chs)
                              \<union> set (flt_partners ks_introsort opt n_chn chs))
               [0..<length chs] \<and>
         sorted_wrt (<) (flt_accepted ks_introsort opt n_chn chs) \<and>
         (\<forall>k \<in> set (flt_accepted ks_introsort opt n_chn chs)
                \<union> set (flt_partners ks_introsort opt n_chn chs). k < length chs)"
proof -
  let ?N = "length chs"
  let ?chs1 = "fst (flt_sorted ks_introsort n_chn chs)"
  let ?a1 = "snd (flt_sorted ks_introsort n_chn chs)"
  have N: "nat n_chn = ?N" using len by auto
  have N2: "1 < ?N" using n len by simp
  note sf = flt_sorted_facts [where ks_introsort = ks_introsort, OF len pos perm]
  obtain n_acc a2 where acc: "flt_accept ks_introsort opt n_chn chs = (n_acc, a2)" by force
  then have outer: "flt_outer opt 1 1 ?N ?a1 = (n_acc, a2)"
    by (simp add: flt_accept_def N)
  have i1: "\<forall>k. 1 \<le> k \<and> k < ?N \<longrightarrow> fa_p (?a1 ! k) = k" using sf(4) by simp
  have "fa_p (?a1 ! 0) = 0" using sf(4) N2 by (metis less_trans zero_less_one)
  then have i2: "\<forall>k < 1. fa_p (?a1 ! k) < 1" by simp
  have i3: "sorted_wrt (<) (map fa_p (take 1 ?a1))"
    by (rule sorted_wrt_short) simp
  have i4: "\<forall>k < ?N. \<forall>v. fa_p2 (?a1 ! k) = Some v \<longrightarrow> v < ?N" using sf(4) by simp
  from flt_outer_inv [OF outer sf(3) _ _ i1 i2 i3 i4] N2
  have o: "n_acc \<le> ?N" "length a2 = ?N" "\<forall>k < n_acc. fa_p (a2 ! k) < ?N"
    "sorted_wrt (<) (map fa_p (take n_acc a2))"
    "\<forall>k < ?N. \<forall>v. fa_p2 (a2 ! k) = Some v \<longrightarrow> v < ?N"
    by simp_all
  let ?ks = "flt_marks (take n_acc a2)"
  have accd: "flt_accepted ks_introsort opt n_chn chs = map fa_p (take n_acc a2)"
    by (simp add: flt_accepted_def acc)
  have pard: "flt_partners ks_introsort opt n_chn chs
      = concat (map (\<lambda>x. case fa_p2 x of None \<Rightarrow> [] | Some k \<Rightarrow> [k]) (take n_acc a2))"
    by (simp add: flt_partners_def acc)
  have K: "set ?ks = set (flt_accepted ks_introsort opt n_chn chs)
                       \<union> set (flt_partners ks_introsort opt n_chn chs)"
    unfolding accd pard by (rule set_flt_marks)
  have mark: "flt_mark 0 n_acc a2 ?chs1 = fold flt_negate ?ks ?chs1"
    using flt_mark_fold [of n_acc a2 0 ?chs1] o(1,2) by simp
  obtain chs_f freed where fr: "flt_free 0 ?N (fold flt_negate ?ks ?chs1) [] = (chs_f, freed)"
    by force
  obtain n' chs' where sq: "flt_squeeze 0 0 ?N chs_f = (n', chs')" by force
  have R: "mem_chain_flt ks_introsort opt n_chn chs = \<lparr>fr_n = int n', fr_chains = chs', fr_freed = freed\<rparr>"
    using n by (simp add: mem_chain_flt_def acc Let_def mark N fr sq)
  from flt_mark_free_squeeze [OF sf(1) sf(2) fr sq]
  have res: "take n' chs' = map (\<lambda>k. ?chs1 ! k) (filter (\<lambda>k. k \<in> set ?ks) [0..<?N])"
    "freed = filter (\<lambda>k. k \<notin> set ?ks) [0..<?N]"
    by simp_all
  have rng: "\<forall>k \<in> set ?ks. k < ?N"
  proof
    fix k assume "k \<in> set ?ks"
    then consider x where "x \<in> set (take n_acc a2)" "k = fa_p x"
      | x where "x \<in> set (take n_acc a2)" "fa_p2 x = Some k"
      unfolding set_flt_marks by (auto split: option.splits)
    then show "k < ?N"
    proof cases
      case 1
      then obtain j where "j < n_acc" "x = a2 ! j"
        using o(1,2) by (auto simp: in_set_conv_nth)
      then show ?thesis using 1 o(3) by simp
    next
      case 2
      then obtain j where j: "j < n_acc" "x = a2 ! j"
        using o(1,2) by (auto simp: in_set_conv_nth)
      then have "j < ?N" using o(1) by simp
      then show ?thesis using 2(2) j(2) o(5) by blast
    qed
  qed
  note res' = res [unfolded K] and rng' = rng [unfolded K]
  have s4: "sorted_wrt (<) (flt_accepted ks_introsort opt n_chn chs)"
    using o(4) by (simp only: accd)
  show ?thesis
    unfolding R using res' rng' s4 by simp
qed

lemma mem_chain_flt_few:
  "n_chn \<le> 1 \<Longrightarrow>
   mem_chain_flt ks_introsort opt n_chn chs = \<lparr>fr_n = n_chn, fr_chains = chs, fr_freed = []\<rparr>"
  by (simp add: mem_chain_flt_def)

text \<open>
  Claim C4, as amended. For at most one chain \<open>mem_chain_flt\<close> returns its input and
  frees nothing. For more chains, each holding at least one seed, it returns, in the
  order of the weight-sorted array, the accepted chains together with the chains recorded
  in the \<open>p2\<close> field of an accepted chain (the first chain found to overlap it
  significantly, kept even when the domination test rejects it); the accepted chains are
  in the order of their acceptance. Exactly the other chains have their seed buffer freed
  and are not among the returned chains. The sort is assumed to permute its input.
\<close>

theorem mem_chain_flt_kept:
  assumes len: "int (length chs) = n_chn"
    and pos: "\<forall>c \<in> set chs. 0 < c_n c"
    and perm: "mset (ks_introsort (flt_aux_all n_chn chs)) = mset (flt_aux_all n_chn chs)"
  shows "(n_chn \<le> 1 \<longrightarrow>
            mem_chain_flt ks_introsort opt n_chn chs
              = \<lparr>fr_n = n_chn, fr_chains = chs, fr_freed = []\<rparr>) \<and>
         (1 < n_chn \<longrightarrow>
            take (nat (fr_n (mem_chain_flt ks_introsort opt n_chn chs)))
                 (fr_chains (mem_chain_flt ks_introsort opt n_chn chs))
              = map (\<lambda>k. fst (flt_sorted ks_introsort n_chn chs) ! k)
                  (filter (\<lambda>k. k \<in> set (flt_accepted ks_introsort opt n_chn chs)
                                 \<union> set (flt_partners ks_introsort opt n_chn chs))
                     [0..<length chs]) \<and>
            fr_freed (mem_chain_flt ks_introsort opt n_chn chs)
              = filter (\<lambda>k. k \<notin> set (flt_accepted ks_introsort opt n_chn chs)
                                 \<union> set (flt_partners ks_introsort opt n_chn chs))
                  [0..<length chs] \<and>
            sorted_wrt (<) (flt_accepted ks_introsort opt n_chn chs) \<and>
            (\<forall>k \<in> set (flt_accepted ks_introsort opt n_chn chs)
                   \<union> set (flt_partners ks_introsort opt n_chn chs). k < length chs))"
  using mem_chain_flt_few [of n_chn ks_introsort opt chs]
    mem_chain_flt_kept_many [where ks_introsort = ks_introsort and opt = opt, OF len _ pos perm]
  by blast

lemma flt_accept_abc:
  "flt_accept ks_introsort_flt mem_opt_init 3 chains_abc =
     (1, [\<lparr>fa_beg = 0, fa_end = 100, fa_w = 100, fa_p = 0, fa_p2 = Some 1\<rparr>,
          \<lparr>fa_beg = 0, fa_end = 20, fa_w = 20, fa_p = 1, fa_p2 = None\<rparr>,
          \<lparr>fa_beg = 10, fa_end = 30, fa_w = 20, fa_p = 2, fa_p2 = None\<rparr>])"
  by (simp add: flt_accept_def flt_sorted_def flt_reorder_def
      flt_aux_all_def flt_aux_init_def ks_introsort_flt_def chains_abc_def mem_opt_init_def
      flt_weight_def flt_outer.simps flt_inner.simps Let_def upt_conv_Cons)

lemma flt_sorted_abc:
  "fst (flt_sorted ks_introsort_flt 3 chains_abc) = [chains_abc ! 1, chains_abc ! 0, chains_abc ! 2]"
  by (simp add: flt_sorted_def flt_reorder_def flt_aux_all_def flt_aux_init_def
      ks_introsort_flt_def chains_abc_def flt_weight_def Let_def upt_conv_Cons)

text \<open>
  Claim C4, as stated, has \<open>mem_chain_flt\<close> return exactly the accepted chains and free
  every rejected chain. For the three chains \<open>chains_abc\<close> only the chain at position 0
  of the sorted array is accepted, yet two chains are returned: the chain at position 1
  is rejected by the domination test, but it is the \<open>p2\<close> of the accepted chain, so it is
  kept and not freed. Only the chain at position 2 is freed.
\<close>

theorem mem_chain_flt_keeps_rejected:
  "flt_accepted ks_introsort_flt mem_opt_init 3 chains_abc = [0] \<and>
   fr_n (mem_chain_flt ks_introsort_flt mem_opt_init 3 chains_abc) = 2 \<and>
   take 2 (fr_chains (mem_chain_flt ks_introsort_flt mem_opt_init 3 chains_abc))
     = [chains_abc ! 1, chains_abc ! 0] \<and>
   fr_freed (mem_chain_flt ks_introsort_flt mem_opt_init 3 chains_abc) = [2]"
  by (simp add: flt_accepted_def mem_chain_flt_def flt_accept_abc flt_sorted_abc
      flt_mark.simps flt_free.simps flt_squeeze.simps flt_negate_def Let_def)
     (simp add: chains_abc_def)

theorem mem_chain_flt_kept_witness:
  "int (length chains_abc) = 3 \<and>
   flt_accepted ks_introsort_flt mem_opt_init 3 chains_abc = [0] \<and>
   flt_partners ks_introsort_flt mem_opt_init 3 chains_abc = [1] \<and>
   take (nat (fr_n (mem_chain_flt ks_introsort_flt mem_opt_init 3 chains_abc)))
        (fr_chains (mem_chain_flt ks_introsort_flt mem_opt_init 3 chains_abc))
     = [chains_abc ! 1, chains_abc ! 0] \<and>
   fr_freed (mem_chain_flt ks_introsort_flt mem_opt_init 3 chains_abc) = [2]"
proof -
  have h1: "int (length chains_abc) = 3" by (simp add: chains_abc_def)
  have h2: "\<forall>c \<in> set chains_abc. 0 < c_n c" by (simp add: chains_abc_def)
  have h3: "mset (ks_introsort_flt (flt_aux_all 3 chains_abc)) = mset (flt_aux_all 3 chains_abc)"
    by (simp add: ks_introsort_flt_def)
  have acc: "flt_accepted ks_introsort_flt mem_opt_init 3 chains_abc = [0]"
    by (simp add: flt_accepted_def flt_accept_abc)
  have par: "flt_partners ks_introsort_flt mem_opt_init 3 chains_abc = [1]"
    by (simp add: flt_partners_def flt_accept_abc)
  have len: "length chains_abc = 3" by (simp add: chains_abc_def)
  from mem_chain_flt_kept [where ks_introsort = ks_introsort_flt and opt = mem_opt_init, OF h1 h2 h3]
  show ?thesis
    unfolding acc par flt_sorted_abc len using h1 acc par
    by (simp add: upt_conv_Cons)
qed

end
